theory Spec2Isabelle
  imports Main "HOL-Library.Multiset"
begin

section \<open>Entries\<close>

text \<open>
  A JavaScript string is a sequence of UTF-16 code units; \<open>length\<close> counts code units,
  as \<open>String.prototype.length\<close> does. \<open>js\<close> embeds an ASCII literal.
\<close>

type_synonym jsstring = "nat list"

definition js :: "string \<Rightarrow> jsstring" where
  "js s = map of_char s"

datatype category = Update | Thought

text \<open>
  \<open>interface Post\<close>; \<open>post_id\<close> is its field \<open>id\<close>. The optional fields \<open>category?\<close> and
  \<open>curated?\<close> are \<open>None\<close> when unset. \<open>timestamp\<close> holds \<open>new Date(p.timestamp).getTime()\<close>,
  the instant in milliseconds: every script reads the field through that expression only,
  and copies it unchanged into a merged entry. Entries are taken to carry a timestamp that
  parses; one that does not (\<open>NaN\<close>) is not modelled.
\<close>

record post =
  post_id :: string
  content :: jsstring
  timestamp :: int
  category :: "category option"
  curated :: "bool option"

datatype error = TypeError

text \<open>An array element that may be \<open>undefined\<close> (an index read out of range).\<close>

type_synonym slot = "post option"

section \<open>Regular expressions\<close>

text \<open>
  The fragment of the regular-expression language that the pattern tables use. Every
  pattern with a letter in it carries the flag \<open>i\<close> (the two that do not, \<open>/^\d+\./\<close> and
  \<open>/^- /\<close>, have no letter), so a literal compares case-insensitively:
  without the flag \<open>u\<close> a code unit matches an ASCII pattern character only if it is that
  character in upper or lower case. \<open>test\<close> is \<open>RegExp.prototype.test\<close>: whether some
  match exists (from the start of the text for a pattern that opens with \<open>^\<close>, from any
  position otherwise).
\<close>

datatype cclass = Chr char | Digit | Word | Dot

definition lower_ascii :: "nat \<Rightarrow> nat" where
  "lower_ascii u = (if 65 \<le> u \<and> u \<le> 90 then u + 32 else u)"

fun cmatch :: "cclass \<Rightarrow> nat \<Rightarrow> bool" where
  "cmatch (Chr c) u = (lower_ascii u = lower_ascii (of_char c))"
| "cmatch Digit u = (48 \<le> u \<and> u \<le> 57)"
| "cmatch Word u =
     ((48 \<le> u \<and> u \<le> 57) \<or> (65 \<le> u \<and> u \<le> 90) \<or> u = 95 \<or> (97 \<le> u \<and> u \<le> 122))"
| "cmatch Dot u = (u \<noteq> 10 \<and> u \<noteq> 13 \<and> u \<noteq> 8232 \<and> u \<noteq> 8233)"

text \<open>
  \<open>Str w\<close> is the literal text \<open>w\<close>, \<open>Unit k\<close> the escaped code unit \<open>\uXXXX\<close>,
  \<open>One c\<close>, \<open>Opt c\<close>, \<open>Star c\<close>, \<open>Plus c\<close> are \<open>c\<close>, \<open>c?\<close>, \<open>c*\<close>, \<open>c+\<close> for a
  character class \<open>c\<close> (\<open>\d\<close>, \<open>\w\<close>, \<open>.\<close> or one character), and \<open>Alt ws\<close> is a
  group of literal alternatives \<open>(w1|w2|...)\<close>.
\<close>

datatype item =
  Str string | Unit nat | One cclass | Opt cclass | Star cclass | Plus cclass | Alt "string list"

fun stripStr :: "string \<Rightarrow> jsstring \<Rightarrow> jsstring option" where
  "stripStr [] s = Some s"
| "stripStr (c # cs) [] = None"
| "stripStr (c # cs) (u # t) = (if cmatch (Chr c) u then stripStr cs t else None)"

fun matchHere :: "item list \<Rightarrow> jsstring \<Rightarrow> bool" where
  "matchHere [] s = True"
| "matchHere (Str w # r) s =
     (case stripStr w s of None \<Rightarrow> False | Some t \<Rightarrow> matchHere r t)"
| "matchHere (Alt ws # r) s =
     list_ex (\<lambda>w. case stripStr w s of None \<Rightarrow> False | Some t \<Rightarrow> matchHere r t) ws"
| "matchHere (Unit k # r) [] = False"
| "matchHere (Unit k # r) (u # t) = (u = k \<and> matchHere r t)"
| "matchHere (One c # r) [] = False"
| "matchHere (One c # r) (u # t) = (cmatch c u \<and> matchHere r t)"
| "matchHere (Opt c # r) [] = matchHere r []"
| "matchHere (Opt c # r) (u # t) = ((cmatch c u \<and> matchHere r t) \<or> matchHere r (u # t))"
| "matchHere (Star c # r) [] = matchHere r []"
| "matchHere (Star c # r) (u # t) =
     ((cmatch c u \<and> matchHere (Star c # r) t) \<or> matchHere r (u # t))"
| "matchHere (Plus c # r) [] = False"
| "matchHere (Plus c # r) (u # t) = (cmatch c u \<and> matchHere (Star c # r) t)"

fun searchFrom :: "item list \<Rightarrow> jsstring \<Rightarrow> bool" where
  "searchFrom p [] = matchHere p []"
| "searchFrom p (u # t) = (matchHere p (u # t) \<or> searchFrom p t)"

datatype regex = Anchored "item list" | Anywhere "item list"

fun test :: "regex \<Rightarrow> jsstring \<Rightarrow> bool" where
  "test (Anchored p) s = matchHere p s"
| "test (Anywhere p) s = searchFrom p s"

text \<open>\<open>PATTERNS.some(p => p.test(s))\<close>, and the \<open>for\<close> loops that return at the first hit.\<close>

definition some_test :: "regex list \<Rightarrow> jsstring \<Rightarrow> bool" where
  "some_test patterns s = list_ex (\<lambda>p. test p s) patterns"

text \<open>Shorthands for the two commonest shapes, \<open>/^w/i\<close> and \<open>/w/i\<close>.\<close>

definition starts :: "string \<Rightarrow> regex" where
  "starts w = Anchored [Str w]"

definition has :: "string \<Rightarrow> regex" where
  "has w = Anywhere [Str w]"

section \<open>String helpers\<close>

text \<open>\<open>String.prototype.trim\<close>: white space and line terminators go, at both ends.\<close>

definition is_ws :: "nat \<Rightarrow> bool" where
  "is_ws u = (u \<in> {9, 10, 11, 12, 13, 32, 160, 5760, 8232, 8233, 8239, 8287, 12288, 65279}
              \<or> (8192 \<le> u \<and> u \<le> 8202))"

definition trim :: "jsstring \<Rightarrow> jsstring" where
  "trim s = rev (dropWhile is_ws (rev (dropWhile is_ws s)))"

text \<open>\<open>s.includes(w)\<close>.\<close>

fun startsWith :: "jsstring \<Rightarrow> jsstring \<Rightarrow> bool" where
  "startsWith s [] = True"
| "startsWith [] (c # w) = False"
| "startsWith (u # s) (c # w) = (u = c \<and> startsWith s w)"

fun includesStr :: "jsstring \<Rightarrow> jsstring \<Rightarrow> bool" where
  "includesStr [] w = startsWith [] w"
| "includesStr (u # s) w = (startsWith (u # s) w \<or> includesStr s w)"

text \<open>\<open>strings.join(sep)\<close>.\<close>

fun join :: "jsstring \<Rightarrow> jsstring list \<Rightarrow> jsstring" where
  "join sep [] = []"
| "join sep [x] = x"
| "join sep (x # y # ys) = x @ sep @ join sep (y # ys)"

definition blank_line :: jsstring where
  "blank_line = [10, 10]"

text \<open>
  \<open>String.prototype.toLowerCase\<close> follows the Unicode case tables of the runtime. The
  classifier takes it as a parameter; \<open>asciiLower\<close> is its restriction to ASCII letters.
\<close>

definition asciiLower :: "jsstring \<Rightarrow> jsstring" where
  "asciiLower s = map lower_ascii s"

section \<open>Sorting\<close>

text \<open>
  \<open>[...posts].sort((a, b) => time(a) - time(b))\<close> and its descending twin.
  \<open>Array.prototype.sort\<close> is stable, and so is the insertion sort \<open>sort_key\<close>.
\<close>

definition sortAsc :: "post list \<Rightarrow> post list" where
  "sortAsc posts = sort_key timestamp posts"

definition sortDesc :: "post list \<Rightarrow> post list" where
  "sortDesc posts = sort_key (\<lambda>p. - timestamp p) posts"

text \<open>
  The same descending sort on an array that may hold \<open>undefined\<close>: the comparator is not
  called on \<open>undefined\<close> elements, which are moved to the end.
\<close>

definition sortDescSlots :: "slot list \<Rightarrow> slot list" where
  "sortDescSlots xs =
     map Some (sortDesc (List.map_filter (\<lambda>x. x) xs)) @ filter (\<lambda>x. x = None) xs"

section \<open>The pattern classifier\<close>

text \<open>The tables of the pattern-based categorizer in scripts/categorize.ts.\<close>

definition UPDATE_PATTERNS :: "regex list" where
  "UPDATE_PATTERNS =
     [Anchored [Str ''Recorded '', Plus Digit],
      starts ''Recorded '',
      starts ''Completed '',
      starts ''Created '',
      starts ''Built '',
      Anchored [Str ''Sent '', Plus Digit],
      Anchored [Str ''Responded to '', Plus Digit],
      starts ''Reviewed '',
      starts ''Hosted '',
      Anchored [Str ''Crushed '', Alt [''leg'', ''back'', ''chest'', ''arm'', ''shoulder'']],
      starts ''Leg day'',
      starts ''Back day'',
      starts ''Chest day'',
      Anywhere [Str ''day '', Unit 0xD83D, Unit 0xDCAA],
      starts ''1:1 with'',
      starts ''Podcast with'',
      starts ''Cancelled'',
      starts ''Refunded'',
      starts ''Removed '',
      starts ''Messaged '',
      starts ''Invited '',
      starts ''Set up '',
      starts ''Fixed '',
      starts ''Wrote '',
      starts ''Migrated '',
      starts ''Outlined '',
      starts ''Edited'',
      starts ''Uploaded'',
      starts ''Booked '',
      starts ''Took thumbnails'',
      starts ''Prepared for'',
      starts ''Roasted '',
      starts ''Tested '',
      starts ''Bought '',
      starts ''Iterated '',
      starts ''Added '',
      starts ''Dealt with'',
      starts ''Found '',
      starts ''Coached '',
      starts ''Scoped '',
      starts ''Wrapped up'',
      starts ''Planned out'',
      starts ''Cut '',
      starts ''Reorganized'',
      Anchored [Str ''Weekly '', Alt [''Office Hour'', ''Community Call'']],
      Anywhere [Str ''management for '',
                Alt [''Jan'', ''Feb'', ''Mar'', ''Apr'', ''May'', ''Jun'',
                     ''Jul'', ''Aug'', ''Sep'', ''Oct'', ''Nov'', ''Dec'']]]"

definition THOUGHT_PATTERNS :: "regex list" where
  "THOUGHT_PATTERNS =
     [Anchored [Str ''I '', Alt [''am'', ''was'', ''think'', ''feel'', ''believe'', ''noticed'',
                                 ''tried'', ''get'']],
      starts ''Coming to the conclusion'',
      starts ''So I'm going to'',
      starts ''It'll be '',
      Anchored [Str ''New '', Alt [''project'', ''idea'']],
      starts ''Possible '',
      starts ''Wow'',
      starts ''All this to say'',
      starts ''But if you'',
      starts ''Second day of'',
      starts ''Third day of'',
      starts ''First day of'',
      starts ''Have been dragging'',
      starts ''Only six modules'',
      starts ''Drowning in'',
      starts ''Feels great'',
      starts ''Well, I tried'',
      starts ''That's...'',
      Anchored [Plus Word, Str '' is SO''],
      has ''my $0.02'',
      Anywhere [Str ''achievin'', Star Dot, Str ''potential''],
      has ''strategy'',
      has ''routine'']"

definition CURATED_INDICATORS :: "regex list" where
  "CURATED_INDICATORS =
     [starts ''Coming to the conclusion'',
      Anchored [Str ''New '', Alt [''project'', ''idea'']],
      starts ''Possible strategic'',
      starts ''All this to say'',
      starts ''I am achieving'',
      has ''my $0.02'',
      has ''potential'',
      has ''strategy'',
      has ''reminder that'',
      has ''lesson'',
      has ''insight'',
      has ''realize'',
      has ''free marketing'',
      has ''mental bandwidth'',
      has ''shockingly'']"

definition reflectiveWords :: "string list" where
  "reflectiveWords =
     [''think'', ''feel'', ''believe'', ''seems'', ''maybe'', ''probably'', ''honestly'',
      ''frankly'']"

text \<open>
  \<open>categorizePost\<close> of the pattern-based categorizer; the result is the pair
  \<open>(category, curated)\<close>. The two \<open>for\<close> loops return at the first pattern that matches.
\<close>

definition categorizePost :: "(jsstring \<Rightarrow> jsstring) \<Rightarrow> jsstring \<Rightarrow> category \<times> bool" where
  "categorizePost toLowerCase text =
     (let trimmed = trim text in
      if some_test UPDATE_PATTERNS trimmed then (Update, False)
      else if some_test THOUGHT_PATTERNS trimmed then
        (let curated0 = some_test CURATED_INDICATORS trimmed;
             curated1 = (if length trimmed > 200 \<and> \<not> curated0 then True else curated0)
         in (Thought, curated1))
      else if length trimmed < 50 then (Update, False)
      else if length trimmed > 200 then (Thought, True)
      else if list_ex (\<lambda>word. includesStr (toLowerCase trimmed) (js word)) reflectiveWords
           then (Thought, False)
      else (Update, False))"

text \<open>
  The callback of \<open>data.posts.map\<close> in \<open>main\<close> of the pattern categorizer:
  \<open>{ ...post, category, curated }\<close>.
\<close>

definition classifyPost :: "(jsstring \<Rightarrow> jsstring) \<Rightarrow> post \<Rightarrow> post" where
  "classifyPost toLowerCase p =
     (case categorizePost toLowerCase (content p) of
        (cat, cur) \<Rightarrow> p\<lparr> category := Some cat, curated := Some cur \<rparr>)"

subsection \<open>The classifier of the Twitter import\<close>

definition UPDATE_PATTERNS_import :: "regex list" where
  "UPDATE_PATTERNS_import =
     [starts ''completed'', starts ''recorded'', starts ''sent'', starts ''hosted'',
      starts ''finished'',
      starts ''reviewed'', starts ''created'', starts ''built'', starts ''fixed'',
      starts ''posted'',
      starts ''published'', starts ''wrote'', starts ''paid'', starts ''set up'',
      starts ''crushed'',
      starts ''1:1 with'', has ''gym'',
      Anywhere [Str ''roast'', Opt (Chr CHR ''s''), Str '' for''], has ''management for'',
      starts ''responded to'', starts ''cancelled'', starts ''purchased'', starts ''donated'',
      starts ''tested'', starts ''experimented'', starts ''watched'', starts ''prepared'',
      starts ''iterated'', starts ''signed'', starts ''removed'', starts ''added'',
      starts ''updated'',
      starts ''messaged'', starts ''enriched'', starts ''ran'', starts ''implemented'',
      starts ''scraped'',
      starts ''refactored'', starts ''rebuilt'', starts ''appealed'', starts ''ordered'',
      has ''leg day'', has ''chest day'', has ''back day'', has ''arm day'',
      has ''weekly office hour'', has ''weekly community call'', has ''live build'',
      has ''podcast with'', has ''stream with'', has ''team meeting'']"

definition THOUGHT_PATTERNS_import :: "regex list" where
  "THOUGHT_PATTERNS_import =
     [starts ''i think'', starts ''i believe'', starts ''i feel'', starts ''i am'',
      starts ''i'm'',
      starts ''coming to the conclusion'', starts ''finding:'', starts ''new idea'',
      starts ''the key'', starts ''biggest'', starts ''interesting'', starts ''wow'',
      has ''should be'', has ''could be'', has ''is huge'', has ''are huge'',
      has ''all this to say'', has ''learnings:'', has ''observation'',
      starts ''can't believe'', starts ''feels great'', starts ''not having'',
      starts ''this is what'', Anchored [Str ''my '', Plus Word, Str '' now looks''],
      has ''doesn't work for me'',
      has ''going to stop'', has ''going to start'', has ''decided to'',
      has ''key here was'', has ''you can totally'', has ''definitely going to'']"

definition CURATED_INDICATORS_import :: "regex list" where
  "CURATED_INDICATORS_import =
     [has ''strategy'', has ''framework'', has ''insight'', has ''learning'',
      has ''principle'', has ''realization'', has ''epiphany'', has ''breakthrough'',
      Anywhere [Str ''game'', Opt Dot, Str ''changer''],
      Anywhere [Str ''key '', Alt [''here'', ''takeaway'', ''insight'']],
      has ''all this to say'',
      Anywhere [Str ''the '', Alt [''biggest'', ''best'', ''key'', ''most important'']],
      Anywhere [Str ''i '', Alt [''realized'', ''discovered'', ''learned'', ''found that'']],
      Anywhere [Str ''consistent '', Star Dot, Str '' raises''], has ''significantly more'',
      has ''unbeatable'', Anywhere [Str ''best '', Star Dot, Str '' by far''],
      has ''biggest hack'',
      has ''saves at least'', has ''turns out'', has ''wild west'',
      has ''professional situation monitor'', has ''algorithmic bullshit'']"

text \<open>\<open>categorizePost\<close> of the import script: all three tables are consulted first.\<close>

definition categorizePost_import :: "jsstring \<Rightarrow> category \<times> bool" where
  "categorizePost_import text =
     (let isUpdate = some_test UPDATE_PATTERNS_import text;
          isThought = some_test THOUGHT_PATTERNS_import text;
          isCurated = some_test CURATED_INDICATORS_import text;
          cat = (if isThought \<and> \<not> isUpdate then Thought
                 else if isThought \<and> isUpdate then
                   (if length text > 150 then Thought else Update)
                 else if \<not> isThought \<and> \<not> isUpdate then
                   (if length text > 200 then Thought else Update)
                 else Update)
      in (cat, cat = Thought \<and> isCurated))"

section \<open>Grouping by time proximity\<close>

text \<open>
  \<open>groupByTimeProximity\<close> (the same function in both oracle scripts of
  scripts/categorize.ts). The loop carries \<open>groups\<close> and \<open>currentGroup\<close>.
\<close>

definition TIME_THRESHOLD_MS :: int where
  "TIME_THRESHOLD_MS = 10 * 60 * 1000"

fun groupLoop :: "post list \<Rightarrow> post list list \<Rightarrow> post list \<Rightarrow> post list list" where
  "groupLoop [] groups currentGroup =
     (if length currentGroup > 0 then groups @ [currentGroup] else groups)"
| "groupLoop (p # rest) groups currentGroup =
     (if length currentGroup = 0 then groupLoop rest groups (currentGroup @ [p])
      else
        let lastPost = last currentGroup;
            timeDiff = timestamp p - timestamp lastPost
        in if timeDiff \<le> TIME_THRESHOLD_MS then groupLoop rest groups (currentGroup @ [p])
           else groupLoop rest (groups @ [currentGroup]) [p])"

definition groupByTimeProximity :: "post list \<Rightarrow> post list list" where
  "groupByTimeProximity posts = groupLoop (sortAsc posts) [] []"

section \<open>scripts/merge-threads-local.ts\<close>

definition THREAD_THRESHOLD_MS :: int where
  "THREAD_THRESHOLD_MS = 5 * 60 * 1000"

definition MIN_THOUGHT_LENGTH :: nat where
  "MIN_THOUGHT_LENGTH = 100"

fun detectLoop :: "post list \<Rightarrow> post list list \<Rightarrow> post list \<Rightarrow> post list list" where
  "detectLoop [] threads currentThread =
     (if length currentThread > 0 then threads @ [currentThread] else threads)"
| "detectLoop (p # rest) threads currentThread =
     (if length currentThread = 0 then detectLoop rest threads (currentThread @ [p])
      else
        let lastPost = last currentThread;
            timeDiff = timestamp p - timestamp lastPost
        in if timeDiff \<le> THREAD_THRESHOLD_MS then
             (let lastIsThought = (category lastPost = Some Thought
                                   \<or> length (content lastPost) > MIN_THOUGHT_LENGTH);
                  currentIsThought = (category p = Some Thought
                                      \<or> length (content p) > MIN_THOUGHT_LENGTH)
              in if (lastIsThought \<and> currentIsThought) \<or> timeDiff \<le> 2 * 60 * 1000
                 then detectLoop rest threads (currentThread @ [p])
                 else detectLoop rest (threads @ [currentThread]) [p])
           else detectLoop rest (threads @ [currentThread]) [p])"

definition detectThreads :: "post list \<Rightarrow> post list list" where
  "detectThreads posts = detectLoop (sortAsc posts) [] []"

text \<open>
  \<open>mergeThread\<close>. \<open>sorted[0].timestamp\<close> on an empty array reads a property of
  \<open>undefined\<close> and throws.
\<close>

definition mergeThread :: "post list \<Rightarrow> error + post" where
  "mergeThread posts =
     (let sorted = sortAsc posts;
          combinedContent = join blank_line (map content sorted)
      in case sorted of
           [] \<Rightarrow> Inl TypeError
         | first # _ \<Rightarrow>
             Inr \<lparr> post_id = post_id first,
                   content = combinedContent,
                   timestamp = timestamp first,
                   category = Some (if list_ex (\<lambda>p. category p = Some Thought) sorted
                                    then Thought else Update),
                   curated = Some (list_ex (\<lambda>p. curated p = Some True) sorted) \<rparr>)"

text \<open>
  The callback of \<open>threads.map\<close> in \<open>main\<close>:
  \<open>thread.length > 1 ? mergeThread(thread) : thread[0]\<close>. \<open>thread[0]\<close> of an empty array
  is \<open>undefined\<close>.
\<close>

definition mergeOrKeep :: "post list \<Rightarrow> error + slot" where
  "mergeOrKeep thread =
     (if length thread > 1 then
        (case mergeThread thread of Inl e \<Rightarrow> Inl e | Inr m \<Rightarrow> Inr (Some m))
      else Inr (case thread of [] \<Rightarrow> None | p # _ \<Rightarrow> Some p))"

text \<open>\<open>xs.map(f)\<close> for an \<open>f\<close> that may throw: the first exception ends the walk.\<close>

fun mapThrowing :: "('a \<Rightarrow> error + 'b) \<Rightarrow> 'a list \<Rightarrow> error + 'b list" where
  "mapThrowing f [] = Inr []"
| "mapThrowing f (x # xs) =
     (case f x of
        Inl e \<Rightarrow> Inl e
      | Inr y \<Rightarrow> (case mapThrowing f xs of Inl e \<Rightarrow> Inl e | Inr ys \<Rightarrow> Inr (y # ys)))"

text \<open>\<open>main\<close>, from the loaded \<open>data.posts\<close> to the array written back.\<close>

definition main_local :: "post list \<Rightarrow> error + slot list" where
  "main_local posts =
     (let threads = detectThreads posts
      in case mapThrowing mergeOrKeep threads of
           Inl e \<Rightarrow> Inl e
         | Inr mergedPosts \<Rightarrow> Inr (sortDescSlots mergedPosts))"

section \<open>The pattern-based thread merger (src/unnamed/part\_003)\<close>

definition CONTINUATION_PATTERNS :: "regex list" where
  "CONTINUATION_PATTERNS =
     [starts ''so i'm going to'',
      starts ''so i'',
      starts ''it'll be'',
      starts ''it will be'',
      starts ''this means'',
      starts ''this is'',
      starts ''that's why'',
      starts ''which means'',
      starts ''all this to say'',
      starts ''in other words'',
      starts ''basically'',
      starts ''anyway'',
      starts ''also,'',
      starts ''and '',
      starts ''but '',
      starts ''because '',
      starts ''since '',
      starts ''nvm,'',
      starts ''fixed.'',
      starts ''update:'',
      starts ''cont'd'',
      starts ''continued'',
      Anchored [Plus Digit, Str ''.''],
      starts ''- '']"

definition STANDALONE_UPDATE_PATTERNS :: "regex list" where
  "STANDALONE_UPDATE_PATTERNS =
     [starts ''completed '',
      Anchored [Str ''recorded '', Plus Digit, Str '' roasts''],
      Anchored [Str ''sent '', Plus Digit, Str '' ''],
      starts ''hosted '',
      starts ''crushed '',
      starts ''gym'',
      starts ''1:1 with'',
      starts ''paid '',
      starts ''reviewed '',
      starts ''cancelled '',
      starts ''purchased '',
      starts ''leg day'',
      starts ''chest day'',
      starts ''back day'',
      starts ''arm day'']"

definition TIME_THRESHOLD_MS_rules :: int where
  "TIME_THRESHOLD_MS_rules = 5 * 60 * 1000"

definition isStandaloneUpdate :: "jsstring \<Rightarrow> bool" where
  "isStandaloneUpdate text = some_test STANDALONE_UPDATE_PATTERNS text"

definition isContinuation :: "jsstring \<Rightarrow> bool" where
  "isContinuation text = some_test CONTINUATION_PATTERNS text"

definition shouldMerge :: "post \<Rightarrow> post \<Rightarrow> bool" where
  "shouldMerge post1 post2 =
     (if category post1 \<noteq> category post2
         \<and> (isStandaloneUpdate (content post1) \<or> isStandaloneUpdate (content post2))
      then False
      else if isStandaloneUpdate (content post1) \<and> isStandaloneUpdate (content post2)
      then False
      else
        let time1 = timestamp post1;
            time2 = timestamp post2;
            timeDiff = \<bar>time2 - time1\<bar>;
            laterPost = (if time2 > time1 then post2 else post1)
        in if timeDiff > TIME_THRESHOLD_MS_rules then False
           else if category post1 = Some Thought \<and> category post2 = Some Thought
                   \<and> isContinuation (content laterPost) then True
           else if category post1 = Some Thought \<and> category post2 = Some Thought
                   \<and> length (content post1) > 100 \<and> length (content post2) > 100 then True
           else if isContinuation (content laterPost) then True
           else False)"

definition mergePosts :: "post list \<Rightarrow> error + post" where
  "mergePosts posts =
     (let sorted = sortAsc posts
      in case sorted of
           [] \<Rightarrow> Inl TypeError
         | first # _ \<Rightarrow>
             Inr \<lparr> post_id = post_id first,
                   content = join blank_line (map content sorted),
                   timestamp = timestamp first,
                   category = Some (if list_ex (\<lambda>p. category p = Some Thought) sorted
                                    then Thought else Update),
                   curated = Some (list_ex (\<lambda>p. curated p = Some True) sorted) \<rparr>)"

text \<open>
  The \<open>for\<close> loop of \<open>main\<close> with its state \<open>finalPosts\<close>, \<open>currentThread\<close>; the first
  equation is the code after the loop (\<open>Handle last thread\<close>). \<open>hd\<close> and \<open>last\<close> stand
  only where the thread has been tested non-empty.
\<close>

fun rulesLoop :: "post list \<Rightarrow> post list \<Rightarrow> post list \<Rightarrow> error + post list" where
  "rulesLoop [] finalPosts currentThread =
     (if length currentThread > 1 then
        (case mergePosts currentThread of
           Inl e \<Rightarrow> Inl e
         | Inr m \<Rightarrow> Inr (finalPosts @ [m]))
      else if length currentThread = 1 then Inr (finalPosts @ [hd currentThread])
      else Inr finalPosts)"
| "rulesLoop (p # rest) finalPosts currentThread =
     (if length currentThread = 0 then rulesLoop rest finalPosts (currentThread @ [p])
      else
        let lastInThread = last currentThread
        in if shouldMerge lastInThread p then rulesLoop rest finalPosts (currentThread @ [p])
           else if length currentThread > 1 then
             (case mergePosts currentThread of
                Inl e \<Rightarrow> Inl e
              | Inr m \<Rightarrow> rulesLoop rest (finalPosts @ [m]) [p])
           else rulesLoop rest (finalPosts @ [hd currentThread]) [p])"

definition main_rules :: "post list \<Rightarrow> error + post list" where
  "main_rules posts =
     (case rulesLoop (sortAsc posts) [] [] of
        Inl e \<Rightarrow> Inl e
      | Inr finalPosts \<Rightarrow> Inr (sortDesc finalPosts))"

section \<open>The partition oracle script of scripts/categorize.ts\<close>

text \<open>
  What \<open>analyzeThreadGroup\<close> makes of the oracle's reply: the text holds no bracketed
  array, \<open>JSON.parse\<close> throws on it, or it parses. A parsed value is an array of arrays
  of integers here; the function returns it as it is.
\<close>

datatype reply = NoMatch | BadJson | Parsed "int list list"

definition analyzeThreadGroup :: "post list \<Rightarrow> reply \<Rightarrow> int list list" where
  "analyzeThreadGroup posts r =
     (case r of
        NoMatch \<Rightarrow> map (\<lambda>i. [int i]) [0..<length posts]
      | BadJson \<Rightarrow> map (\<lambda>i. [int i]) [0..<length posts]
      | Parsed groups \<Rightarrow> groups)"

text \<open>\<open>group[idx]\<close>: \<open>undefined\<close> outside the array.\<close>

definition at_index :: "post list \<Rightarrow> int \<Rightarrow> slot" where
  "at_index grp idx = (if 0 \<le> idx \<and> nat idx < length grp then Some (grp ! nat idx) else None)"

text \<open>
  \<open>mergePosts\<close> of this script, on an array that may hold \<open>undefined\<close>: reading
  \<open>p.content\<close> of an \<open>undefined\<close> element throws.
\<close>

definition mergePosts_oracle :: "slot list \<Rightarrow> error + post" where
  "mergePosts_oracle threadPosts =
     (case those threadPosts of None \<Rightarrow> Inl TypeError | Some posts \<Rightarrow> mergePosts posts)"

text \<open>The loop \<open>for (const indices of threadGroups)\<close> over one time group.\<close>

fun placeThreads :: "post list \<Rightarrow> int list list \<Rightarrow> slot list \<Rightarrow> error + slot list" where
  "placeThreads grp [] finalPosts = Inr finalPosts"
| "placeThreads grp (indices # rest) finalPosts =
     (let threadPosts = map (at_index grp) indices
      in if length indices > 1 then
           (case mergePosts_oracle threadPosts of
              Inl e \<Rightarrow> Inl e
            | Inr m \<Rightarrow> placeThreads grp rest (finalPosts @ [Some m]))
         else placeThreads grp rest
                (finalPosts @ [case threadPosts of [] \<Rightarrow> None | x # _ \<Rightarrow> x]))"

text \<open>
  The loop over the time groups; \<open>judge\<close> is the reply the oracle gives for a group.
\<close>

fun oracleLoop :: "(post list \<Rightarrow> reply) \<Rightarrow> post list list \<Rightarrow> slot list \<Rightarrow> error + slot list" where
  "oracleLoop judge [] finalPosts = Inr finalPosts"
| "oracleLoop judge (grp # rest) finalPosts =
     (case grp of
        [p] \<Rightarrow> oracleLoop judge rest (finalPosts @ [Some p])
      | _ \<Rightarrow>
          (case placeThreads grp (analyzeThreadGroup grp (judge grp)) finalPosts of
             Inl e \<Rightarrow> Inl e
           | Inr finalPosts' \<Rightarrow> oracleLoop judge rest finalPosts'))"

definition main_oracle :: "(post list \<Rightarrow> reply) \<Rightarrow> post list \<Rightarrow> error + slot list" where
  "main_oracle judge posts =
     (case oracleLoop judge (groupByTimeProximity posts) [] of
        Inl e \<Rightarrow> Inl e
      | Inr finalPosts \<Rightarrow> Inr (sortDescSlots finalPosts))"

section \<open>Notions used in the statements\<close>

text \<open>
  All three scripts sweep the time-sorted entries once, from left to right, adding an entry
  to the open group when a test on (last entry of the group, entry) holds and closing
  the group otherwise. \<open>sweep\<close> is that loop with the test as a parameter, and \<open>chain\<close>
  is its result written by recursion on the list: the maximal runs of consecutive entries
  that are linked.
\<close>

fun chain :: "('a \<Rightarrow> 'a \<Rightarrow> bool) \<Rightarrow> 'a list \<Rightarrow> 'a list list" where
  "chain link [] = []"
| "chain link (x # xs) =
     (case chain link xs of
        [] \<Rightarrow> [[x]]
      | g # gs \<Rightarrow> if link x (hd g) then (x # g) # gs else [x] # g # gs)"

fun sweep :: "('a \<Rightarrow> 'a \<Rightarrow> bool) \<Rightarrow> 'a list \<Rightarrow> 'a list list \<Rightarrow> 'a list \<Rightarrow> 'a list list" where
  "sweep link [] groups cur = (if cur = [] then groups else groups @ [cur])"
| "sweep link (x # xs) groups cur =
     (if cur = [] then sweep link xs groups [x]
      else if link (last cur) x then sweep link xs groups (cur @ [x])
      else sweep link xs (groups @ [cur]) [x])"

text \<open>The number of the group that holds position \<open>i\<close> of the concatenated groups.\<close>

fun cluster_of :: "'a list list \<Rightarrow> nat \<Rightarrow> nat" where
  "cluster_of [] i = 0"
| "cluster_of (g # gs) i = (if i < length g then 0 else Suc (cluster_of gs (i - length g)))"

text \<open>The join test of \<open>detectThreads\<close>.\<close>

definition threadLink :: "post \<Rightarrow> post \<Rightarrow> bool" where
  "threadLink a b =
     (timestamp b - timestamp a \<le> THREAD_THRESHOLD_MS \<and>
      (((category a = Some Thought \<or> length (content a) > MIN_THOUGHT_LENGTH) \<and>
        (category b = Some Thought \<or> length (content b) > MIN_THOUGHT_LENGTH))
       \<or> timestamp b - timestamp a \<le> 2 * 60 * 1000))"

text \<open>
  The entry that the three merge functions build from a non-empty group, and what the
  pipelines put in the output for a group.
\<close>

definition merged :: "post list \<Rightarrow> post" where
  "merged posts =
     \<lparr> post_id = post_id (hd (sortAsc posts)),
       content = join blank_line (map content (sortAsc posts)),
       timestamp = timestamp (hd (sortAsc posts)),
       category = Some (if list_ex (\<lambda>p. category p = Some Thought) (sortAsc posts)
                        then Thought else Update),
       curated = Some (list_ex (\<lambda>p. curated p = Some True) (sortAsc posts)) \<rparr>"

definition mergeStep :: "post list \<Rightarrow> post" where
  "mergeStep g = (if length g > 1 then merged g else hd g)"

text \<open>The threads that the loop of the pattern-based merger forms.\<close>

definition threads_rules :: "post list \<Rightarrow> post list list" where
  "threads_rules posts = chain shouldMerge (sortAsc posts)"

text \<open>A reply that \<open>analyzeThreadGroup\<close> cannot parse.\<close>

definition unparseable :: "reply \<Rightarrow> bool" where
  "unparseable r = (r = NoMatch \<or> r = BadJson)"

subsection \<open>Patterns and white space\<close>

text \<open>
  A pattern is \<open>trim_safe\<close> when every match of it begins and ends with a character that
  is not white space, so that trimming the text cannot destroy the match. The other
  patterns of the update table are \<open>space_ended\<close>: one opening word followed by a space.
\<close>

definition solid_char :: "char \<Rightarrow> bool" where
  "solid_char c = (\<not> is_ws (of_char c))"

fun class_solid :: "cclass \<Rightarrow> bool" where
  "class_solid (Chr c) = solid_char c"
| "class_solid Digit = True"
| "class_solid Word = True"
| "class_solid Dot = False"

fun item_ends_solid :: "item \<Rightarrow> bool" where
  "item_ends_solid (Str w) = (w \<noteq> [] \<and> solid_char (last w))"
| "item_ends_solid (Unit k) = (\<not> is_ws k)"
| "item_ends_solid (One c) = class_solid c"
| "item_ends_solid (Plus c) = class_solid c"
| "item_ends_solid (Opt c) = False"
| "item_ends_solid (Star c) = False"
| "item_ends_solid (Alt ws) = list_all (\<lambda>w. w \<noteq> [] \<and> solid_char (last w)) ws"

fun item_starts_solid :: "item \<Rightarrow> bool" where
  "item_starts_solid (Str w) = (w \<noteq> [] \<and> solid_char (hd w))"
| "item_starts_solid (Unit k) = (\<not> is_ws k)"
| "item_starts_solid (One c) = class_solid c"
| "item_starts_solid (Plus c) = class_solid c"
| "item_starts_solid (Opt c) = False"
| "item_starts_solid (Star c) = False"
| "item_starts_solid (Alt ws) = list_all (\<lambda>w. w \<noteq> [] \<and> solid_char (hd w)) ws"

fun ends_solid :: "item list \<Rightarrow> bool" where
  "ends_solid [] = False"
| "ends_solid [i] = item_ends_solid i"
| "ends_solid (i # j # r) = ends_solid (j # r)"

fun starts_solid :: "item list \<Rightarrow> bool" where
  "starts_solid [] = False"
| "starts_solid (i # r) = item_starts_solid i"

fun unit_free :: "item list \<Rightarrow> bool" where
  "unit_free [] = True"
| "unit_free (Unit k # r) = False"
| "unit_free (i # r) = unit_free r"

fun regex_unit_free :: "regex \<Rightarrow> bool" where
  "regex_unit_free (Anchored p) = unit_free p"
| "regex_unit_free (Anywhere p) = unit_free p"

fun trim_safe :: "regex \<Rightarrow> bool" where
  "trim_safe (Anchored p) = (starts_solid p \<and> ends_solid p)"
| "trim_safe (Anywhere p) = (starts_solid p \<and> ends_solid p)"

fun space_ended :: "regex \<Rightarrow> bool" where
  "space_ended (Anchored [Str w]) =
     (w \<noteq> [] \<and> last w = CHR '' '' \<and> butlast w \<noteq> [] \<and> solid_char (hd w)
      \<and> solid_char (last (butlast w)) \<and> length (butlast w) < 50
      \<and> \<not> some_test THOUGHT_PATTERNS (js (butlast w)))"
| "space_ended _ = False"

section \<open>Sample entries\<close>

text \<open>
  Concrete entries and texts on which the statements below are instantiated. Timestamps
  are milliseconds; 60000 is one minute.
\<close>

definition ex_a :: post where
  "ex_a = \<lparr> post_id = ''a'', content = js ''A'', timestamp = 0,
            category = Some Thought, curated = Some False \<rparr>"

definition ex_b :: post where
  "ex_b = \<lparr> post_id = ''b'', content = js ''B'', timestamp = 600000,
            category = Some Update, curated = None \<rparr>"

definition ex_c :: post where
  "ex_c = \<lparr> post_id = ''c'', content = js ''C'', timestamp = 1200000,
            category = None, curated = Some True \<rparr>"

definition ex_d :: post where
  "ex_d = \<lparr> post_id = ''d'', content = js ''D'', timestamp = 3000000,
            category = None, curated = None \<rparr>"

definition gym_text :: jsstring where
  "gym_text = js ''I think the gym membership should be cancelled because I almost never go there anymore and the money would be better spent on equipment for the home office instead''"

definition fixed_text :: jsstring where
  "fixed_text = js ''Fixed my strategy''"

definition padded_text :: jsstring where
  "padded_text = js ''Completed   ''"

definition completed_text :: jsstring where
  "completed_text = js ''Completed the plan, should be fine''"

definition ex_e :: post where
  "ex_e = \<lparr> post_id = ''e'', content = js ''E'', timestamp = 1260000,
            category = Some Thought, curated = Some True \<rparr>"

definition veto_s :: post where
  "veto_s = \<lparr> post_id = ''s'', content = js ''Completed the export'', timestamp = 0,
               category = Some Update, curated = Some False \<rparr>"

definition veto_u :: post where
  "veto_u = \<lparr> post_id = ''u'', content = js ''and cleaned the logs'', timestamp = 60000,
               category = Some Update, curated = Some False \<rparr>"

definition veto_t :: post where
  "veto_t = \<lparr> post_id = ''t'', content = js ''So I'm going to rewrite the importer'',
               timestamp = 120000, category = Some Thought, curated = Some False \<rparr>"

definition rerun_a :: post where
  "rerun_a = \<lparr> post_id = ''a'',
       content = js ''Coming to the conclusion that the weekly review format no longer works for me, since the notes pile up and nobody reads them.'',
       timestamp = 0, category = Some Thought, curated = Some True \<rparr>"

definition rerun_b :: post where
  "rerun_b = \<lparr> post_id = ''b'', content = js ''So I'm going to drop it.'', timestamp = 60000,
       category = Some Thought, curated = Some False \<rparr>"

definition rerun_c :: post where
  "rerun_c = \<lparr> post_id = ''c'',
       content = js ''New idea: give the monthly planning session most of the preparation time, since it is the part that actually moves projects forward.'',
       timestamp = 120000, category = Some Thought, curated = Some True \<rparr>"

definition rerun_ab :: post where
  "rerun_ab = \<lparr> post_id = ''a'',
       content = content rerun_a @ blank_line @ content rerun_b,
       timestamp = 0, category = Some Thought, curated = Some True \<rparr>"

definition rerun_abc :: post where
  "rerun_abc = \<lparr> post_id = ''a'',
       content = content rerun_a @ blank_line @ content rerun_b @ blank_line @ content rerun_c,
       timestamp = 0, category = Some Thought, curated = Some True \<rparr>"

definition local_u1 :: post where
  "local_u1 = \<lparr> post_id = ''u1'', content = js ''Recorded the walkthrough for the onboarding course today.'',
       timestamp = 0, category = Some Update, curated = Some False \<rparr>"

definition local_u2 :: post where
  "local_u2 = \<lparr> post_id = ''u2'', content = js ''Uploaded the slides and the recording to the shared drive.'',
       timestamp = 60000, category = Some Update, curated = Some False \<rparr>"

definition local_t :: post where
  "local_t = \<lparr> post_id = ''t'', content = js ''New idea: batch the uploads, it saves a surprising amount of time.'',
       timestamp = 240000, category = Some Thought, curated = Some True \<rparr>"

definition local_u12 :: post where
  "local_u12 = \<lparr> post_id = ''u1'',
       content = content local_u1 @ blank_line @ content local_u2,
       timestamp = 0, category = Some Update, curated = Some False \<rparr>"

definition local_u12t :: post where
  "local_u12t = \<lparr> post_id = ''u1'',
       content = content local_u1 @ blank_line @ content local_u2 @ blank_line @ content local_t,
       timestamp = 0, category = Some Thought, curated = Some True \<rparr>"

section \<open>Lemmas\<close>

subsection \<open>The sweep\<close>

lemma concat_chain: "concat (chain link xs) = xs"
  by (induction xs) (auto split: list.splits)

lemma chain_nonempty: "[] \<notin> set (chain link xs)"
  by (induction xs) (auto split: list.splits)

lemma chain_Nil_iff: "chain link xs = [] \<longleftrightarrow> xs = []"
  by (cases xs) (auto split: list.splits)

lemma chain_hd: "chain link (x # xs) = g # gs \<Longrightarrow> g \<noteq> [] \<and> hd g = x"
  by (auto split: list.splits if_splits)

lemma chain_linked: "successively link xs \<Longrightarrow> xs \<noteq> [] \<Longrightarrow> chain link xs = [xs]"
proof (induction xs)
  case Nil
  then show ?case by simp
next
  case (Cons x xs)
  show ?case
  proof (cases xs)
    case Nil
    then show ?thesis by simp
  next
    case (Cons y ys)
    with Cons.prems Cons.IH have "chain link xs = [xs]" "link x y" by auto
    with Cons show ?thesis by simp
  qed
qed

lemma chain_break:
  "cur \<noteq> [] \<Longrightarrow> successively link cur \<Longrightarrow> \<not> link (last cur) x \<Longrightarrow>
   chain link (cur @ x # xs) = cur # chain link (x # xs)"
proof (induction cur)
  case Nil
  then show ?case by simp
next
  case (Cons a cur)
  obtain g gs where g: "chain link (x # xs) = g # gs" "g \<noteq> []" "hd g = x"
    using chain_hd[of link x xs] chain_Nil_iff[of link "x # xs"]
    by (cases "chain link (x # xs)") auto
  show ?case
  proof (cases cur)
    case Nil
    with Cons.prems g show ?thesis by simp
  next
    case (Cons b cs)
    with Cons.prems Cons.IH have "chain link (cur @ x # xs) = cur # chain link (x # xs)" "link a b"
      by auto
    with Cons show ?thesis by simp
  qed
qed

lemma sweep_chain:
  "successively link cur \<Longrightarrow> sweep link xs groups cur = groups @ chain link (cur @ xs)"
proof (induction xs arbitrary: groups cur)
  case Nil
  then show ?case by (simp add: chain_linked)
next
  case (Cons x xs)
  show ?case
  proof (cases "cur = []")
    case True
    with Cons.IH[of "[x]" groups] show ?thesis by simp
  next
    case False
    show ?thesis
    proof (cases "link (last cur) x")
      case True
      with False Cons.prems have "successively link (cur @ [x])"
        by (simp add: successively_append_iff)
      from Cons.IH[OF this, of groups] True False show ?thesis by simp
    next
      case nl: False
      from Cons.IH[of "[x]" "groups @ [cur]"] chain_break[OF False Cons.prems nl, of xs] nl False
      show ?thesis by simp
    qed
  qed
qed

lemma cluster_of_chain:
  "Suc i < length xs \<Longrightarrow>
   (cluster_of (chain link xs) i = cluster_of (chain link xs) (Suc i)) = link (xs ! i) (xs ! Suc i)"
proof (induction xs arbitrary: i)
  case Nil
  then show ?case by simp
next
  case (Cons x xs)
  then obtain y ys where xs: "xs = y # ys" by (cases xs) auto
  obtain g gs where g: "chain link xs = g # gs" "g \<noteq> []" "hd g = y"
    using chain_hd[of link y ys] chain_Nil_iff[of link xs] xs
    by (cases "chain link xs") auto
  show ?case
  proof (cases i)
    case 0
    with g xs show ?thesis by (cases g) auto
  next
    case (Suc j)
    with Cons.prems have "Suc j < length xs" by simp
    from Cons.IH[OF this] g Suc show ?thesis by auto
  qed
qed

lemma chain_singletons:
  "successively (\<lambda>a b. \<not> link a b) xs \<Longrightarrow> chain link xs = map (\<lambda>x. [x]) xs"
proof (induction xs)
  case Nil
  then show ?case by simp
next
  case (Cons x xs)
  then show ?case by (cases xs) (auto simp: successively_Cons)
qed

lemma chain_within: "g \<in> set (chain link xs) \<Longrightarrow> successively link g"
proof (induction xs arbitrary: g)
  case Nil
  then show ?case by simp
next
  case (Cons x xs)
  then show ?case
    by (cases "chain link xs") (auto split: if_splits simp: successively_Cons)
qed

lemma length_chain: "length (chain link xs) \<le> length xs"
  by (induction xs) (auto split: list.splits)

lemma groupLoop_sweep:
  "groupLoop xs groups cur = sweep (\<lambda>a b. timestamp b - timestamp a \<le> TIME_THRESHOLD_MS) xs groups cur"
  by (induction xs arbitrary: groups cur) (auto simp: Let_def)

lemma detectLoop_sweep: "detectLoop xs threads cur = sweep threadLink xs threads cur"
  by (induction xs arbitrary: threads cur) (auto simp: Let_def threadLink_def)

subsection \<open>Sorting\<close>

lemma sortAsc_sorted: "sorted (map timestamp (sortAsc xs))"
  by (simp add: sortAsc_def)

lemma sortAsc_mset: "mset (sortAsc xs) = mset xs"
  by (simp add: sortAsc_def)

lemma sortAsc_set: "set (sortAsc xs) = set xs"
  by (simp add: sortAsc_def)

lemma sortAsc_length: "length (sortAsc xs) = length xs"
  by (simp add: sortAsc_def)

lemma sortAsc_Nil_iff: "sortAsc xs = [] \<longleftrightarrow> xs = []"
  using sortAsc_length[of xs] by (metis length_0_conv)

lemma sortAsc_stable:
  "filter (\<lambda>p. timestamp p = k) (sortAsc xs) = filter (\<lambda>p. timestamp p = k) xs"
  by (simp add: sortAsc_def sort_key_stable)

lemma sortAsc_id: "sorted (map timestamp xs) \<Longrightarrow> sortAsc xs = xs"
  by (simp add: sortAsc_def sort_key_id_if_sorted)

lemma sortDesc_set: "set (sortDesc xs) = set xs"
  by (simp add: sortDesc_def)

lemma sortDesc_length: "length (sortDesc xs) = length xs"
  by (simp add: sortDesc_def)

lemma sortDesc_sorted: "sorted (map (\<lambda>p. - timestamp p) (sortDesc xs))"
  by (simp add: sortDesc_def)

lemma sortAsc_stable':
  "filter (\<lambda>p. k = timestamp p) (sortAsc xs) = filter (\<lambda>p. k = timestamp p) xs"
proof -
  have e: "(\<lambda>p. k = timestamp p) = (\<lambda>p. timestamp p = k)" by auto
  show ?thesis unfolding e by (rule sortAsc_stable)
qed

lemma sortDesc_after_sortAsc:
  assumes "sorted (map (\<lambda>p. - timestamp p) xs)"
  shows "sortDesc (sortAsc xs) = xs"
  unfolding sortDesc_def
proof (rule properties_for_sort_key)
  show "mset xs = mset (sortAsc xs)" by (simp add: sortAsc_mset)
  show "sorted (map (\<lambda>p. - timestamp p) xs)" by (rule assms)
  fix k
  show "filter (\<lambda>x. - timestamp k = - timestamp x) xs
      = filter (\<lambda>x. - timestamp k = - timestamp x) (sortAsc xs)"
    by (simp add: sortAsc_stable')
qed

subsection \<open>The pipelines as sweeps\<close>

lemma mergePosts_merged: "posts \<noteq> [] \<Longrightarrow> mergePosts posts = Inr (merged posts)"
  by (cases "sortAsc posts") (auto simp: mergePosts_def merged_def Let_def sortAsc_Nil_iff)

lemma mergeThread_merged: "posts \<noteq> [] \<Longrightarrow> mergeThread posts = Inr (merged posts)"
  by (cases "sortAsc posts") (auto simp: mergeThread_def merged_def Let_def sortAsc_Nil_iff)

lemma sweep_groups: "sweep link xs groups cur = groups @ sweep link xs [] cur"
proof (induction xs arbitrary: groups cur)
  case Nil
  then show ?case by simp
next
  case (Cons x xs)
  show ?case
    using Cons.IH[of groups "[x]"] Cons.IH[of groups "cur @ [x]"]
      Cons.IH[of "groups @ [cur]" "[x]"] Cons.IH[of "[cur]" "[x]"]
    by simp
qed

lemma rulesLoop_sweep:
  "rulesLoop xs finalPosts cur = Inr (finalPosts @ map mergeStep (sweep shouldMerge xs [] cur))"
proof (induction xs arbitrary: finalPosts cur)
  case Nil
  show ?case
    by (cases cur) (auto simp: mergeStep_def mergePosts_merged)
next
  case (Cons x xs)
  show ?case
  proof (cases "cur = []")
    case True
    then show ?thesis using Cons.IH[of finalPosts "[x]"] by simp
  next
    case False
    then have len: "length cur \<noteq> 0" by simp
    show ?thesis
    proof (cases "shouldMerge (last cur) x")
      case True
      with False show ?thesis using Cons.IH[of finalPosts "cur @ [x]"] by simp
    next
      case nm: False
      have sw: "sweep shouldMerge (x # xs) [] cur = cur # sweep shouldMerge xs [] [x]"
        using False nm sweep_groups[of shouldMerge xs "[cur]" "[x]"] by simp
      show ?thesis
      proof (cases "length cur > 1")
        case True
        with False nm sw show ?thesis
          using Cons.IH[of "finalPosts @ [merged cur]" "[x]"]
          by (simp add: mergePosts_merged mergeStep_def)
      next
        case False
        with \<open>cur \<noteq> []\<close> nm sw show ?thesis
          using Cons.IH[of "finalPosts @ [hd cur]" "[x]"]
          by (simp add: mergeStep_def)
      qed
    qed
  qed
qed

lemma main_rules_eq:
  "main_rules posts = Inr (sortDesc (map mergeStep (threads_rules posts)))"
  using sweep_chain[of shouldMerge "[]" "sortAsc posts" "[]"]
  by (simp add: main_rules_def rulesLoop_sweep threads_rules_def)

lemma detectThreads_chain: "detectThreads posts = chain threadLink (sortAsc posts)"
  using sweep_chain[of threadLink "[]" "sortAsc posts" "[]"]
  by (simp add: detectThreads_def detectLoop_sweep)

lemma groupByTimeProximity_chain:
  "groupByTimeProximity posts
     = chain (\<lambda>a b. timestamp b - timestamp a \<le> TIME_THRESHOLD_MS) (sortAsc posts)"
  using sweep_chain[of "\<lambda>a b. timestamp b - timestamp a \<le> TIME_THRESHOLD_MS" "[]" "sortAsc posts" "[]"]
  by (simp add: groupByTimeProximity_def groupLoop_sweep)

lemma mergeOrKeep_step: "g \<noteq> [] \<Longrightarrow> mergeOrKeep g = Inr (Some (mergeStep g))"
  by (cases g) (auto simp: mergeOrKeep_def mergeStep_def mergeThread_merged)

lemma mapThrowing_mergeOrKeep:
  "[] \<notin> set gs \<Longrightarrow> mapThrowing mergeOrKeep gs = Inr (map (\<lambda>g. Some (mergeStep g)) gs)"
  by (induction gs) (auto simp: mergeOrKeep_step)

lemma sortDescSlots_Some: "sortDescSlots (map Some xs) = map Some (sortDesc xs)"
proof -
  have "List.map_filter (\<lambda>x. x) (map Some xs) = xs"
    by (induction xs) (simp_all add: List.map_filter_simps)
  moreover have "filter (\<lambda>x. x = None) (map Some xs) = []"
    by (induction xs) simp_all
  ultimately show ?thesis by (simp add: sortDescSlots_def)
qed

lemma main_local_eq:
  "main_local posts = Inr (map Some (sortDesc (map mergeStep (detectThreads posts))))"
proof -
  have "[] \<notin> set (detectThreads posts)"
    by (simp add: detectThreads_chain chain_nonempty)
  then have "mapThrowing mergeOrKeep (detectThreads posts)
      = Inr (map Some (map mergeStep (detectThreads posts)))"
    by (simp add: mapThrowing_mergeOrKeep)
  then have "main_local posts = Inr (sortDescSlots (map Some (map mergeStep (detectThreads posts))))"
    by (simp add: main_local_def)
  then show ?thesis
    by (simp only: sortDescSlots_Some)
qed

lemma mergeStep_id: "g \<noteq> [] \<Longrightarrow> post_id (mergeStep g) \<in> post_id ` set g"
proof -
  assume ne: "g \<noteq> []"
  then have "sortAsc g \<noteq> []" by (simp add: sortAsc_Nil_iff)
  then have "hd (sortAsc g) \<in> set g" using sortAsc_set[of g] hd_in_set by blast
  with ne show ?thesis by (auto simp: mergeStep_def merged_def)
qed

lemma chain_ids:
  "post_id ` set (map mergeStep (chain link xs)) \<subseteq> post_id ` set xs"
proof
  fix i assume "i \<in> post_id ` set (map mergeStep (chain link xs))"
  then obtain g where g: "g \<in> set (chain link xs)" "i = post_id (mergeStep g)" by auto
  then have "g \<noteq> []" using chain_nonempty[of link xs] by auto
  then have "i \<in> post_id ` set g" using g mergeStep_id by simp
  moreover have "set g \<subseteq> set xs" using g(1) concat_chain[of link xs]
    by (metis Sup_upper image_eqI set_concat)
  ultimately show "i \<in> post_id ` set xs" by auto
qed

lemma mergeStep_length_ids:
  "length (map mergeStep (chain link xs)) \<le> length xs \<and>
   set (map post_id (map mergeStep (chain link xs))) \<subseteq> set (map post_id xs)"
  using chain_ids[of link xs] length_chain[of link xs] by (simp add: image_image)

lemma merged_fields:
  "content (merged posts) = join blank_line (map content (sortAsc posts)) \<and>
   post_id (merged posts) = post_id (hd (sortAsc posts)) \<and>
   category (merged posts)
     = Some (if (\<exists>p \<in> set posts. category p = Some Thought) then Thought else Update) \<and>
   curated (merged posts) = Some (\<exists>p \<in> set posts. curated p = Some True)"
  by (simp add: merged_def list_ex_iff sortAsc_set)

lemma sortAsc_arrival:
  assumes "distinct (map timestamp posts)" and "mset arrival = mset posts"
  shows "sortAsc arrival = sortAsc posts"
  unfolding sortAsc_def[of arrival]
proof (rule sort_key_inj_key_eq)
  show "mset arrival = mset (sortAsc posts)" using assms(2) by (simp add: sortAsc_mset)
  have "set arrival = set posts" using assms(2) by (rule mset_eq_setD)
  moreover have "inj_on timestamp (set posts)" using assms(1) by (simp add: distinct_map)
  ultimately show "inj_on timestamp (set arrival)" by simp
  show "sorted (map timestamp (sortAsc posts))" by (rule sortAsc_sorted)
qed

subsection \<open>Evaluating the pattern tables\<close>

lemma some_testI: "p \<in> set patterns \<Longrightarrow> test p s \<Longrightarrow> some_test patterns s"
  by (auto simp: some_test_def list_ex_iff)

lemmas rx_defs = js_def lower_ascii_def starts_def has_def

lemma gym_update: "some_test UPDATE_PATTERNS_import gym_text"
proof (rule some_testI)
  show "has ''gym'' \<in> set UPDATE_PATTERNS_import" by (simp add: UPDATE_PATTERNS_import_def)
  show "test (has ''gym'') gym_text" by (simp add: gym_text_def rx_defs)
qed

lemma gym_thought: "some_test THOUGHT_PATTERNS_import gym_text"
proof (rule some_testI)
  show "starts ''i think'' \<in> set THOUGHT_PATTERNS_import" by (simp add: THOUGHT_PATTERNS_import_def)
  show "test (starts ''i think'') gym_text" by (simp add: gym_text_def rx_defs)
qed

lemma gym_length: "length gym_text > 150"
  by (simp add: gym_text_def js_def)

lemma merged_update_curated:
  assumes "curated (merged posts) = Some True" and "category (merged posts) = Some Update"
  shows "\<exists>p \<in> set posts. curated p = Some True \<and> category p \<noteq> Some Thought"
  using assms merged_fields[of posts] by (auto split: if_splits)

lemmas ex_defs = ex_a_def ex_b_def ex_c_def ex_d_def

subsection \<open>The partition oracle\<close>

lemma sortDesc_after_sortAsc_any: "sortDesc (sortAsc xs) = sortDesc xs"
  unfolding sortDesc_def[of "sortAsc xs"]
proof (rule properties_for_sort_key)
  show "mset (sortDesc xs) = mset (sortAsc xs)" by (simp add: sortAsc_mset sortDesc_def)
  show "sorted (map (\<lambda>p. - timestamp p) (sortDesc xs))" by (rule sortDesc_sorted)
  fix k
  have e: "(\<lambda>x. - timestamp k = - timestamp x) = (\<lambda>x. - timestamp x = - timestamp k)" by auto
  have "filter (\<lambda>x. - timestamp x = - timestamp k) (sortDesc xs)
      = filter (\<lambda>x. - timestamp x = - timestamp k) xs"
    unfolding sortDesc_def by (rule sort_key_stable)
  moreover have "filter (\<lambda>x. - timestamp k = - timestamp x) (sortAsc xs)
      = filter (\<lambda>x. - timestamp k = - timestamp x) xs"
    by (simp add: sortAsc_stable')
  ultimately show "filter (\<lambda>x. - timestamp k = - timestamp x) (sortDesc xs)
      = filter (\<lambda>x. - timestamp k = - timestamp x) (sortAsc xs)"
    unfolding e by simp
qed

lemma placeThreads_singletons:
  "set is \<subseteq> {0..<length grp} \<Longrightarrow>
   placeThreads grp (map (\<lambda>i. [int i]) is) slots = Inr (slots @ map (\<lambda>i. Some (grp ! i)) is)"
  by (induction "is" arbitrary: slots) (auto simp: at_index_def)

lemma placeThreads_fallback:
  "placeThreads grp (map (\<lambda>i. [int i]) [0..<length grp]) slots = Inr (slots @ map Some grp)"
proof -
  have "map (\<lambda>i. Some (grp ! i)) [0..<length grp] = map Some (map (\<lambda>i. grp ! i) [0..<length grp])"
    by simp
  also have "\<dots> = map Some grp" by (simp only: map_nth)
  finally show ?thesis using placeThreads_singletons[of "[0..<length grp]" grp slots] by simp
qed

lemma analyze_unparseable:
  "unparseable r \<Longrightarrow> analyzeThreadGroup grp r = map (\<lambda>i. [int i]) [0..<length grp]"
  by (auto simp: unparseable_def analyzeThreadGroup_def)

lemma oracleLoop_unparseable:
  "(\<And>g. unparseable (judge g)) \<Longrightarrow>
   oracleLoop judge groups slots = Inr (slots @ map Some (concat groups))"
proof (induction groups arbitrary: slots)
  case Nil
  then show ?case by simp
next
  case (Cons g groups)
  have step: "placeThreads g (analyzeThreadGroup g (judge g)) slots = Inr (slots @ map Some g)"
    using Cons.prems by (simp add: analyze_unparseable placeThreads_fallback)
  show ?case
  proof (cases g)
    case Nil
    with step Cons.IH[OF Cons.prems, of slots] show ?thesis by simp
  next
    case (Cons p ps)
    show ?thesis
    proof (cases ps)
      case Nil
      with Cons Cons.IH[OF Cons.prems, of "slots @ [Some p]"] show ?thesis
        using \<open>g = p # ps\<close> by simp
    next
      case (Cons q qs)
      with step \<open>g = p # ps\<close> Cons.IH[OF Cons.prems, of "slots @ map Some g"] show ?thesis
        by simp
    qed
  qed
qed

lemma group_abc: "groupByTimeProximity [ex_a, ex_b, ex_c] = [[ex_a, ex_b, ex_c]]"
  by (simp add: groupByTimeProximity_def sortAsc_def ex_defs TIME_THRESHOLD_MS_def Let_def)

lemmas sm_defs = shouldMerge_def isStandaloneUpdate_def isContinuation_def
  STANDALONE_UPDATE_PATTERNS_def CONTINUATION_PATTERNS_def TIME_THRESHOLD_MS_rules_def
  some_test_def rx_defs Let_def

subsection \<open>The sample entries\<close>

lemma veto_standalone: "isStandaloneUpdate (content veto_s)"
  by (simp add: veto_s_def sm_defs)

lemma veto_su: "shouldMerge veto_s veto_u"
  by (simp add: veto_s_def veto_u_def sm_defs)

lemma veto_ut: "shouldMerge veto_u veto_t"
  by (simp add: veto_t_def veto_u_def sm_defs)

lemma veto_st: "\<not> shouldMerge veto_s veto_t"
  by (simp add: veto_t_def veto_s_def sm_defs)

lemma sort_sut: "sortAsc [veto_s, veto_u, veto_t] = [veto_s, veto_u, veto_t]"
  by (simp add: sortAsc_def veto_s_def veto_u_def veto_t_def)

lemma shouldMerge_veto:
  "category p \<noteq> category q \<Longrightarrow>
   isStandaloneUpdate (content p) \<or> isStandaloneUpdate (content q) \<Longrightarrow> \<not> shouldMerge p q"
  by (simp add: shouldMerge_def)

lemma chain_shorter:
  "\<not> successively (\<lambda>a b. \<not> link a b) xs \<Longrightarrow> length (chain link xs) < length xs"
proof (induction xs)
  case Nil
  then show ?case by simp
next
  case (Cons x xs)
  show ?case
  proof (cases xs)
    case Nil
    with Cons.prems show ?thesis by simp
  next
    case (Cons y ys)
    then obtain g gs where g: "chain link xs = g # gs" "g \<noteq> []" "hd g = y"
      using chain_hd[of link y ys] chain_Nil_iff[of link xs]
      by (cases "chain link xs") auto
    show ?thesis
    proof (cases "link x y")
      case True
      with g length_chain[of link xs] show ?thesis by simp
    next
      case False
      with Cons.prems Cons have "\<not> successively (\<lambda>a b. \<not> link a b) xs" by simp
      from Cons.IH[OF this] g False show ?thesis by simp
    qed
  qed
qed

lemma mergeStep_singletons: "map mergeStep (map (\<lambda>x. [x]) xs) = xs"
  by (induction xs) (simp_all add: mergeStep_def)

lemma rerun_generic:
  assumes "out = sortDesc ys"
  shows "(sortDesc (map mergeStep (chain link (sortAsc out))) = out)
           = successively (\<lambda>a b. \<not> link a b) (sortAsc out)"
proof (cases "successively (\<lambda>a b. \<not> link a b) (sortAsc out)")
  case True
  have "sorted (map (\<lambda>p. - timestamp p) out)"
    unfolding assms by (rule sortDesc_sorted)
  then have "sortDesc (sortAsc out) = out" by (rule sortDesc_after_sortAsc)
  moreover have "map mergeStep (chain link (sortAsc out)) = sortAsc out"
    using True by (simp only: chain_singletons mergeStep_singletons)
  ultimately show ?thesis using True by simp
next
  case False
  from chain_shorter[OF this]
  have "length (sortDesc (map mergeStep (chain link (sortAsc out)))) < length out"
    by (simp add: sortDesc_length sortAsc_length)
  then have "sortDesc (map mergeStep (chain link (sortAsc out))) \<noteq> out" by auto
  with False show ?thesis by simp
qed

lemmas rerun_defs = rerun_a_def rerun_b_def rerun_c_def rerun_ab_def rerun_abc_def
lemmas local_defs = local_u1_def local_u2_def local_t_def local_u12_def local_u12t_def

lemma rerun_ab_link: "shouldMerge rerun_a rerun_b"
  by (simp add: rerun_a_def rerun_b_def sm_defs)

lemma rerun_bc_link: "\<not> shouldMerge rerun_b rerun_c"
  by (simp add: rerun_b_def rerun_c_def sm_defs)

lemma rerun_abc_link: "shouldMerge rerun_ab rerun_c"
  by (simp add: rerun_defs blank_line_def sm_defs)

lemma rerun_first: "main_rules [rerun_a, rerun_b, rerun_c] = Inr [rerun_c, rerun_ab]"
proof -
  have s: "sortAsc [rerun_a, rerun_b, rerun_c] = [rerun_a, rerun_b, rerun_c]"
    by (simp add: sortAsc_def rerun_defs)
  have m: "merged [rerun_a, rerun_b] = rerun_ab"
    by (simp add: merged_def sortAsc_def rerun_defs)
  have d: "sortDesc [rerun_ab, rerun_c] = [rerun_c, rerun_ab]"
    by (simp add: sortDesc_def rerun_defs)
  show ?thesis
    using rerun_ab_link rerun_bc_link
    by (simp add: main_rules_def s mergePosts_merged m d)
qed

lemma rerun_second: "main_rules [rerun_c, rerun_ab] = Inr [rerun_abc]"
proof -
  have s: "sortAsc [rerun_c, rerun_ab] = [rerun_ab, rerun_c]"
    by (simp add: sortAsc_def rerun_defs)
  have m: "merged [rerun_ab, rerun_c] = rerun_abc"
    by (simp add: merged_def sortAsc_def rerun_defs)
  show ?thesis
    using rerun_abc_link
    by (simp add: main_rules_def s mergePosts_merged m sortDesc_def)
qed

lemma local_first: "main_local [local_u1, local_u2, local_t] = Inr [Some local_t, Some local_u12]"
proof -
  have s: "sortAsc [local_u1, local_u2, local_t] = [local_u1, local_u2, local_t]"
    by (simp add: sortAsc_def local_defs)
  have l: "threadLink local_u1 local_u2" "\<not> threadLink local_u2 local_t"
    by (simp_all add: threadLink_def local_defs THREAD_THRESHOLD_MS_def MIN_THOUGHT_LENGTH_def js_def)
  have m: "merged [local_u1, local_u2] = local_u12"
    by (simp add: merged_def sortAsc_def local_defs)
  have d: "sortDesc [local_u12, local_t] = [local_t, local_u12]"
    by (simp add: sortDesc_def local_defs)
  show ?thesis
    using l by (simp add: main_local_eq detectThreads_chain s mergeStep_def m d)
qed

lemma local_second: "main_local [local_t, local_u12] = Inr [Some local_u12t]"
proof -
  have s: "sortAsc [local_t, local_u12] = [local_u12, local_t]"
    by (simp add: sortAsc_def local_defs)
  have l: "threadLink local_u12 local_t"
    by (simp add: threadLink_def local_defs THREAD_THRESHOLD_MS_def MIN_THOUGHT_LENGTH_def js_def
        blank_line_def)
  have m: "merged [local_u12, local_t] = local_u12t"
    by (simp add: merged_def sortAsc_def local_defs)
  show ?thesis
    using l by (simp add: main_local_eq detectThreads_chain s mergeStep_def m sortDesc_def)
qed

lemmas tbl_defs = some_test_def UPDATE_PATTERNS_def THOUGHT_PATTERNS_def
  CURATED_INDICATORS_def rx_defs

lemma classify_by_tables:
  "\<not> some_test UPDATE_PATTERNS (trim (content p)) \<Longrightarrow>
   some_test THOUGHT_PATTERNS (trim (content p)) \<Longrightarrow>
   some_test CURATED_INDICATORS (trim (content p)) = cur \<Longrightarrow>
   length (trim (content p)) \<le> 200 \<Longrightarrow>
   category p = Some Thought \<Longrightarrow> curated p = Some cur \<Longrightarrow>
   classifyPost lc p = p"
  by (simp add: classifyPost_def categorizePost_def Let_def)

lemma classify_update:
  "some_test UPDATE_PATTERNS (trim (content p)) \<Longrightarrow>
   category p = Some Update \<Longrightarrow> curated p = Some False \<Longrightarrow>
   classifyPost lc p = p"
  by (simp add: classifyPost_def categorizePost_def Let_def)

lemma trim_js_id:
  assumes "s \<noteq> []" and "\<not> is_ws (hd s)" and "\<not> is_ws (last s)"
  shows "trim s = s"
proof -
  have 1: "dropWhile is_ws s = s" using assms(1,2) by (cases s) auto
  obtain x xs where r: "rev s = x # xs" using assms(1) by (cases "rev s") auto
  then have "x = last s" using assms(1) by (metis hd_rev list.sel(1))
  with assms(3) have "dropWhile is_ws (x # xs) = x # xs" by simp
  then have "dropWhile is_ws (rev s) = rev s" by (simp only: r)
  with 1 show ?thesis by (simp add: trim_def)
qed

lemma classify_short_update:
  "\<not> some_test UPDATE_PATTERNS (trim (content p)) \<Longrightarrow>
   \<not> some_test THOUGHT_PATTERNS (trim (content p)) \<Longrightarrow>
   length (trim (content p)) < 50 \<Longrightarrow>
   category p = Some Update \<Longrightarrow> curated p = Some False \<Longrightarrow>
   classifyPost lc p = p"
  by (simp add: classifyPost_def categorizePost_def Let_def)

lemma trim_rerun_a: "trim (content rerun_a) = content rerun_a"
  by (rule trim_js_id) (simp_all add: rerun_a_def js_def is_ws_def blank_line_def)

lemma cls_rerun_a: "classifyPost asciiLower rerun_a = rerun_a"
proof (rule classify_by_tables[where cur = True])
  show "\<not> some_test UPDATE_PATTERNS (trim (content rerun_a))"
    unfolding trim_rerun_a by (simp add: rerun_a_def blank_line_def tbl_defs)
  show "some_test THOUGHT_PATTERNS (trim (content rerun_a))"
    unfolding trim_rerun_a
    by (rule some_testI[of "starts ''Coming to the conclusion''"])
      (simp_all add: THOUGHT_PATTERNS_def rerun_a_def rx_defs)
  show "some_test CURATED_INDICATORS (trim (content rerun_a)) = True"
    unfolding trim_rerun_a
    using some_testI[of "starts ''Coming to the conclusion''" CURATED_INDICATORS "content rerun_a"]
    by (simp add: CURATED_INDICATORS_def rerun_a_def rx_defs)
  show "length (trim (content rerun_a)) \<le> 200"
    unfolding trim_rerun_a by (simp add: rerun_a_def js_def blank_line_def)
qed (simp_all add: rerun_a_def)

lemma trim_rerun_b: "trim (content rerun_b) = content rerun_b"
  by (rule trim_js_id) (simp_all add: rerun_b_def js_def is_ws_def blank_line_def)

lemma cls_rerun_b: "classifyPost asciiLower rerun_b = rerun_b"
proof (rule classify_by_tables[where cur = False])
  show "\<not> some_test UPDATE_PATTERNS (trim (content rerun_b))"
    unfolding trim_rerun_b by (simp add: rerun_b_def blank_line_def tbl_defs)
  show "some_test THOUGHT_PATTERNS (trim (content rerun_b))"
    unfolding trim_rerun_b
    by (rule some_testI[of "starts ''So I'm going to''"])
      (simp_all add: THOUGHT_PATTERNS_def rerun_b_def rx_defs)
  show "some_test CURATED_INDICATORS (trim (content rerun_b)) = False"
    unfolding trim_rerun_b by (simp add: rerun_b_def blank_line_def tbl_defs)
  show "length (trim (content rerun_b)) \<le> 200"
    unfolding trim_rerun_b by (simp add: rerun_b_def js_def blank_line_def)
qed (simp_all add: rerun_b_def)

lemma trim_rerun_c: "trim (content rerun_c) = content rerun_c"
  by (rule trim_js_id) (simp_all add: rerun_c_def js_def is_ws_def blank_line_def)

lemma cls_rerun_c: "classifyPost asciiLower rerun_c = rerun_c"
proof (rule classify_by_tables[where cur = True])
  show "\<not> some_test UPDATE_PATTERNS (trim (content rerun_c))"
    unfolding trim_rerun_c by (simp add: rerun_c_def blank_line_def tbl_defs)
  show "some_test THOUGHT_PATTERNS (trim (content rerun_c))"
    unfolding trim_rerun_c
    by (rule some_testI[of "Anchored [Str ''New '', Alt [''project'', ''idea'']]"])
      (simp_all add: THOUGHT_PATTERNS_def rerun_c_def rx_defs)
  show "some_test CURATED_INDICATORS (trim (content rerun_c)) = True"
    unfolding trim_rerun_c
    using some_testI[of "Anchored [Str ''New '', Alt [''project'', ''idea'']]" CURATED_INDICATORS "content rerun_c"]
    by (simp add: CURATED_INDICATORS_def rerun_c_def rx_defs)
  show "length (trim (content rerun_c)) \<le> 200"
    unfolding trim_rerun_c by (simp add: rerun_c_def js_def blank_line_def)
qed (simp_all add: rerun_c_def)

lemma trim_rerun_ab: "trim (content rerun_ab) = content rerun_ab"
  by (rule trim_js_id) (simp_all add: rerun_ab_def rerun_a_def rerun_b_def js_def is_ws_def blank_line_def)

lemma cls_rerun_ab: "classifyPost asciiLower rerun_ab = rerun_ab"
proof (rule classify_by_tables[where cur = True])
  show "\<not> some_test UPDATE_PATTERNS (trim (content rerun_ab))"
    unfolding trim_rerun_ab by (simp add: rerun_ab_def rerun_a_def rerun_b_def blank_line_def tbl_defs)
  show "some_test THOUGHT_PATTERNS (trim (content rerun_ab))"
    unfolding trim_rerun_ab
    by (rule some_testI[of "starts ''Coming to the conclusion''"])
      (simp_all add: THOUGHT_PATTERNS_def rerun_ab_def rerun_a_def rerun_b_def rx_defs)
  show "some_test CURATED_INDICATORS (trim (content rerun_ab)) = True"
    unfolding trim_rerun_ab
    using some_testI[of "starts ''Coming to the conclusion''" CURATED_INDICATORS "content rerun_ab"]
    by (simp add: CURATED_INDICATORS_def rerun_ab_def rerun_a_def rerun_b_def rx_defs)
  show "length (trim (content rerun_ab)) \<le> 200"
    unfolding trim_rerun_ab by (simp add: rerun_ab_def rerun_a_def rerun_b_def js_def blank_line_def)
qed (simp_all add: rerun_ab_def rerun_a_def rerun_b_def)

lemma trim_veto_t: "trim (content veto_t) = content veto_t"
  by (rule trim_js_id) (simp_all add: veto_t_def js_def is_ws_def blank_line_def)

lemma cls_veto_t: "classifyPost asciiLower veto_t = veto_t"
proof (rule classify_by_tables[where cur = False])
  show "\<not> some_test UPDATE_PATTERNS (trim (content veto_t))"
    unfolding trim_veto_t by (simp add: veto_t_def blank_line_def tbl_defs)
  show "some_test THOUGHT_PATTERNS (trim (content veto_t))"
    unfolding trim_veto_t
    by (rule some_testI[of "starts ''So I'm going to''"])
      (simp_all add: THOUGHT_PATTERNS_def veto_t_def rx_defs)
  show "some_test CURATED_INDICATORS (trim (content veto_t)) = False"
    unfolding trim_veto_t by (simp add: veto_t_def blank_line_def tbl_defs)
  show "length (trim (content veto_t)) \<le> 200"
    unfolding trim_veto_t by (simp add: veto_t_def js_def blank_line_def)
qed (simp_all add: veto_t_def)

lemma trim_local_t: "trim (content local_t) = content local_t"
  by (rule trim_js_id) (simp_all add: local_t_def js_def is_ws_def blank_line_def)

lemma cls_local_t: "classifyPost asciiLower local_t = local_t"
proof (rule classify_by_tables[where cur = True])
  show "\<not> some_test UPDATE_PATTERNS (trim (content local_t))"
    unfolding trim_local_t by (simp add: local_t_def blank_line_def tbl_defs)
  show "some_test THOUGHT_PATTERNS (trim (content local_t))"
    unfolding trim_local_t
    by (rule some_testI[of "Anchored [Str ''New '', Alt [''project'', ''idea'']]"])
      (simp_all add: THOUGHT_PATTERNS_def local_t_def rx_defs)
  show "some_test CURATED_INDICATORS (trim (content local_t)) = True"
    unfolding trim_local_t
    using some_testI[of "Anchored [Str ''New '', Alt [''project'', ''idea'']]" CURATED_INDICATORS "content local_t"]
    by (simp add: CURATED_INDICATORS_def local_t_def rx_defs)
  show "length (trim (content local_t)) \<le> 200"
    unfolding trim_local_t by (simp add: local_t_def js_def blank_line_def)
qed (simp_all add: local_t_def)

lemma trim_veto_s: "trim (content veto_s) = content veto_s"
  by (rule trim_js_id) (simp_all add: veto_s_def js_def is_ws_def blank_line_def)

lemma cls_veto_s: "classifyPost asciiLower veto_s = veto_s"
proof (rule classify_update)
  show "some_test UPDATE_PATTERNS (trim (content veto_s))"
    unfolding trim_veto_s
    by (rule some_testI[of "starts ''Completed ''"])
      (simp_all add: UPDATE_PATTERNS_def veto_s_def rx_defs)
qed (simp_all add: veto_s_def)

lemma trim_local_u1: "trim (content local_u1) = content local_u1"
  by (rule trim_js_id) (simp_all add: local_u1_def js_def is_ws_def blank_line_def)

lemma cls_local_u1: "classifyPost asciiLower local_u1 = local_u1"
proof (rule classify_update)
  show "some_test UPDATE_PATTERNS (trim (content local_u1))"
    unfolding trim_local_u1
    by (rule some_testI[of "starts ''Recorded ''"])
      (simp_all add: UPDATE_PATTERNS_def local_u1_def rx_defs)
qed (simp_all add: local_u1_def)

lemma trim_local_u2: "trim (content local_u2) = content local_u2"
  by (rule trim_js_id) (simp_all add: local_u2_def js_def is_ws_def blank_line_def)

lemma cls_local_u2: "classifyPost asciiLower local_u2 = local_u2"
proof (rule classify_update)
  show "some_test UPDATE_PATTERNS (trim (content local_u2))"
    unfolding trim_local_u2
    by (rule some_testI[of "starts ''Uploaded''"])
      (simp_all add: UPDATE_PATTERNS_def local_u2_def rx_defs)
qed (simp_all add: local_u2_def)

lemma trim_local_u12: "trim (content local_u12) = content local_u12"
  by (rule trim_js_id) (simp_all add: local_u12_def local_u1_def local_u2_def js_def is_ws_def blank_line_def)

lemma cls_local_u12: "classifyPost asciiLower local_u12 = local_u12"
proof (rule classify_update)
  show "some_test UPDATE_PATTERNS (trim (content local_u12))"
    unfolding trim_local_u12
    by (rule some_testI[of "starts ''Recorded ''"])
      (simp_all add: UPDATE_PATTERNS_def local_u12_def local_u1_def local_u2_def rx_defs)
qed (simp_all add: local_u12_def local_u1_def local_u2_def)

lemma trim_veto_u: "trim (content veto_u) = content veto_u"
  by (rule trim_js_id) (simp_all add: veto_u_def js_def is_ws_def)

lemma cls_veto_u: "classifyPost asciiLower veto_u = veto_u"
proof (rule classify_short_update)
  show "\<not> some_test UPDATE_PATTERNS (trim (content veto_u))"
    unfolding trim_veto_u by (simp add: veto_u_def tbl_defs)
  show "\<not> some_test THOUGHT_PATTERNS (trim (content veto_u))"
    unfolding trim_veto_u by (simp add: veto_u_def tbl_defs)
  show "length (trim (content veto_u)) < 50"
    unfolding trim_veto_u by (simp add: veto_u_def js_def)
qed (simp_all add: veto_u_def)

subsection \<open>Matching and trimming\<close>

lemma cmatch_Chr_ws: "cmatch (Chr c) u \<Longrightarrow> is_ws u \<Longrightarrow> \<not> solid_char c"
  by (auto simp: solid_char_def lower_ascii_def is_ws_def split: if_splits)

lemma cmatch_ws: "cmatch c u \<Longrightarrow> is_ws u \<Longrightarrow> \<not> class_solid c"
  by (cases c) (auto simp: cmatch_Chr_ws, auto simp: is_ws_def)

lemma ends_solid_Cons: "r \<noteq> [] \<Longrightarrow> ends_solid (i # r) = ends_solid r"
  by (cases r) auto

text \<open>What \<open>stripStr\<close> consumes.\<close>

lemma stripStr_Some:
  "stripStr w s = Some t \<Longrightarrow>
   \<exists>m. s = m @ t \<and> list_all2 (\<lambda>c u. cmatch (Chr c) u) w m"
proof (induction w s rule: stripStr.induct)
  case (1 s)
  then show ?case by simp
next
  case (2 c cs)
  then show ?case by simp
next
  case (3 c cs u t')
  then show ?case
    by (auto split: if_splits intro: exI[of _ "u # m" for m])
qed

lemma stripStr_ws_not_solid:
  assumes "stripStr w s = Some t" and "list_all is_ws s" and "w \<noteq> []"
  shows "\<not> solid_char (last w)" and "\<not> solid_char (hd w)" and "list_all is_ws t"
proof -
  from stripStr_Some[OF assms(1)] obtain m where m: "s = m @ t"
    "list_all2 (\<lambda>c u. cmatch (Chr c) u) w m" by blast
  from m(1) assms(2) have ws: "list_all is_ws m" "list_all is_ws t" by auto
  from m(2) assms(3) have ne: "m \<noteq> []" by auto
  from m(2) have len: "length w = length m" by (rule list_all2_lengthD)
  have i: "length m - 1 < length w" "0 < length w" using ne len by simp_all
  have "cmatch (Chr (w ! (length m - 1))) (m ! (length m - 1))"
    by (rule list_all2_nthD[OF m(2) i(1)])
  moreover have "w ! (length m - 1) = last w" using assms(3) len by (simp add: last_conv_nth)
  moreover have "m ! (length m - 1) = last m" using ne by (simp add: last_conv_nth)
  ultimately have "cmatch (Chr (last w)) (last m)" by (simp del: cmatch.simps)
  moreover have "is_ws (last m)" using ws(1) ne by (simp add: list_all_iff)
  ultimately show "\<not> solid_char (last w)" by (rule cmatch_Chr_ws)
  have "cmatch (Chr (w ! 0)) (m ! 0)"
    by (rule list_all2_nthD[OF m(2) i(2)])
  moreover have "w ! 0 = hd w" using assms(3) by (simp add: hd_conv_nth)
  moreover have "m ! 0 = hd m" using ne by (simp add: hd_conv_nth)
  ultimately have "cmatch (Chr (hd w)) (hd m)" by (simp del: cmatch.simps)
  moreover have "is_ws (hd m)" using ws(1) ne by (simp add: list_all_iff)
  ultimately show "\<not> solid_char (hd w)" by (rule cmatch_Chr_ws)
  show "list_all is_ws t" by (rule ws(2))
qed

lemma no_match_in_ws:
  "list_all is_ws s \<Longrightarrow> ends_solid items \<Longrightarrow> \<not> matchHere items s"
proof (induction items s rule: matchHere.induct)
  case (1 s)
  then show ?case by simp
next
  case (2 w r s)
  show ?case
  proof
    assume "matchHere (Str w # r) s"
    then obtain t where t: "stripStr w s = Some t" "matchHere r t"
      by (auto split: option.splits)
    show False
    proof (cases "r = []")
      case True
      with "2.prems" have "w \<noteq> []" "solid_char (last w)" by auto
      with stripStr_ws_not_solid(1)[OF t(1) "2.prems"(1)] show False by simp
    next
      case False
      with "2.prems" have e: "ends_solid r" by (simp add: ends_solid_Cons)
      have "list_all is_ws t"
      proof (cases "w = []")
        case True
        with t "2.prems" show ?thesis by simp
      next
        case False
        from stripStr_ws_not_solid(3)[OF t(1) "2.prems"(1) False] show ?thesis .
      qed
      from "2.IH"[OF t(1) this e] t(2) show False by simp
    qed
  qed
next
  case (3 ws r s)
  show ?case
  proof
    assume "matchHere (Alt ws # r) s"
    then obtain w t where t: "w \<in> set ws" "stripStr w s = Some t" "matchHere r t"
      by (auto simp: list_ex_iff split: option.splits)
    show False
    proof (cases "r = []")
      case True
      with "3.prems" t(1) have "w \<noteq> []" "solid_char (last w)" by (auto simp: list_all_iff)
      with stripStr_ws_not_solid(1)[OF t(2) "3.prems"(1)] show False by simp
    next
      case False
      with "3.prems" have e: "ends_solid r" by (simp add: ends_solid_Cons)
      have "list_all is_ws t"
      proof (cases "w = []")
        case True
        with t "3.prems" show ?thesis by simp
      next
        case False
        from stripStr_ws_not_solid(3)[OF t(2) "3.prems"(1) False] show ?thesis .
      qed
      from "3.IH"[OF t(1) t(2) this e] t(3) show False by simp
    qed
  qed
next
  case (4 k r)
  then show ?case by simp
next
  case (5 k r u t)
  then show ?case by (cases "r = []") (auto simp: ends_solid_Cons)
next
  case (6 c r)
  then show ?case by simp
next
  case (7 c r u t)
  then show ?case by (cases "r = []") (auto simp: ends_solid_Cons dest: cmatch_ws)
next
  case (8 c r)
  then show ?case by (cases "r = []") (auto simp: ends_solid_Cons)
next
  case (9 c r u t)
  then show ?case by (cases "r = []") (auto simp: ends_solid_Cons)
next
  case (10 c r)
  then show ?case by (cases "r = []") (auto simp: ends_solid_Cons)
next
  case (11 c r u t)
  then show ?case by (cases "r = []") (auto simp: ends_solid_Cons)
next
  case (12 c r)
  then show ?case by simp
next
  case (13 c r u t)
  then show ?case by (cases "r = []") (auto simp: ends_solid_Cons dest: cmatch_ws)
qed

lemma stripStr_append:
  assumes "stripStr w (t @ v) = Some rest"
  shows "(\<exists>t2. stripStr w t = Some t2 \<and> rest = t2 @ v) \<or>
         (\<exists>w1 w2. w = w1 @ w2 \<and> w2 \<noteq> [] \<and> stripStr w1 t = Some [] \<and> stripStr w2 v = Some rest)"
  using assms
proof (induction w t rule: stripStr.induct)
  case (1 s)
  then show ?case by simp
next
  case (2 c cs)
  then have "stripStr (c # cs) v = Some rest" by simp
  then have "c # cs = [] @ (c # cs) \<and> c # cs \<noteq> [] \<and> stripStr [] [] = Some []
      \<and> stripStr (c # cs) v = Some rest" by simp
  then show ?case by blast
next
  case (3 c cs u t)
  from "3.prems" have m: "cmatch (Chr c) u" and r: "stripStr cs (t @ v) = Some rest"
    by (auto split: if_splits)
  from "3.IH"[OF m r] show ?case
  proof
    assume "\<exists>t2. stripStr cs t = Some t2 \<and> rest = t2 @ v"
    with m show ?thesis by auto
  next
    assume "\<exists>w1 w2. cs = w1 @ w2 \<and> w2 \<noteq> [] \<and> stripStr w1 t = Some [] \<and> stripStr w2 v = Some rest"
    then obtain w1 w2 where "cs = w1 @ w2" "w2 \<noteq> []" "stripStr w1 t = Some []"
      "stripStr w2 v = Some rest" by blast
    with m have "c # cs = (c # w1) @ w2 \<and> w2 \<noteq> [] \<and> stripStr (c # w1) (u # t) = Some []
      \<and> stripStr w2 v = Some rest" by simp
    then show ?thesis by blast
  qed
qed

lemma stripStr_before_ws:
  assumes "stripStr w (t @ v) = Some rest" and "list_all is_ws v"
    and "w \<noteq> []" and "solid_char (last w)"
  shows "\<exists>t2. stripStr w t = Some t2 \<and> rest = t2 @ v"
proof -
  from stripStr_append[OF assms(1)] show ?thesis
  proof
    assume "\<exists>w1 w2. w = w1 @ w2 \<and> w2 \<noteq> [] \<and> stripStr w1 t = Some [] \<and> stripStr w2 v = Some rest"
    then obtain w1 w2 where w: "w = w1 @ w2" "w2 \<noteq> []" "stripStr w2 v = Some rest" by blast
    from stripStr_ws_not_solid(1)[OF w(3) assms(2) w(2)] w(1,2) assms(4) show ?thesis by simp
  qed
qed

lemma matchHere_Star_Nil: "matchHere [Star c] s"
  by (cases s) auto

lemma match_before_ws:
  "list_all is_ws v \<Longrightarrow> ends_solid items \<Longrightarrow> matchHere items (t @ v) \<Longrightarrow> matchHere items t"
proof (induction items t rule: matchHere.induct)
  case (1 s)
  then show ?case by simp
next
  case (2 w r s)
  from "2.prems"(3) obtain rest where rest: "stripStr w (s @ v) = Some rest" "matchHere r rest"
    by (auto split: option.splits)
  show ?case
  proof (cases "r = []")
    case True
    with "2.prems" have "w \<noteq> []" "solid_char (last w)" by auto
    from stripStr_before_ws[OF rest(1) "2.prems"(1) this] True show ?thesis by auto
  next
    case False
    with "2.prems" have e: "ends_solid r" by (simp add: ends_solid_Cons)
    from stripStr_append[OF rest(1)] show ?thesis
    proof
      assume "\<exists>t2. stripStr w s = Some t2 \<and> rest = t2 @ v"
      then obtain t2 where t2: "stripStr w s = Some t2" "rest = t2 @ v" by blast
      from "2.IH"[OF t2(1) "2.prems"(1) e] rest(2) t2 show ?thesis by simp
    next
      assume "\<exists>w1 w2. w = w1 @ w2 \<and> w2 \<noteq> [] \<and> stripStr w1 s = Some [] \<and> stripStr w2 v = Some rest"
      then obtain w2 where w2: "w2 \<noteq> []" "stripStr w2 v = Some rest" by blast
      from stripStr_ws_not_solid(3)[OF w2(2) "2.prems"(1) w2(1)] have "list_all is_ws rest" .
      from no_match_in_ws[OF this e] rest(2) show ?thesis by simp
    qed
  qed
next
  case (3 ws r s)
  from "3.prems"(3) obtain w rest where rest: "w \<in> set ws" "stripStr w (s @ v) = Some rest"
    "matchHere r rest"
    by (auto simp: list_ex_iff split: option.splits)
  show ?case
  proof (cases "r = []")
    case True
    with "3.prems" rest(1) have "w \<noteq> []" "solid_char (last w)" by (auto simp: list_all_iff)
    from stripStr_before_ws[OF rest(2) "3.prems"(1) this] obtain t2
      where "stripStr w s = Some t2" by blast
    with True rest(1) show ?thesis
      by (auto simp: list_ex_iff intro!: bexI[of _ w])
  next
    case False
    with "3.prems" have e: "ends_solid r" by (simp add: ends_solid_Cons)
    from stripStr_append[OF rest(2)] show ?thesis
    proof
      assume "\<exists>t2. stripStr w s = Some t2 \<and> rest = t2 @ v"
      then obtain t2 where t2: "stripStr w s = Some t2" "rest = t2 @ v" by blast
      from "3.IH"[OF rest(1) t2(1) "3.prems"(1) e] rest(3) t2 have "matchHere r t2" by simp
      with t2(1) rest(1) show ?thesis by (auto simp: list_ex_iff intro!: bexI[of _ w])
    next
      assume "\<exists>w1 w2. w = w1 @ w2 \<and> w2 \<noteq> [] \<and> stripStr w1 s = Some [] \<and> stripStr w2 v = Some rest"
      then obtain w2 where w2: "w2 \<noteq> []" "stripStr w2 v = Some rest" by blast
      from stripStr_ws_not_solid(3)[OF w2(2) "3.prems"(1) w2(1)] have "list_all is_ws rest" .
      from no_match_in_ws[OF this e] rest(3) show ?thesis by simp
    qed
  qed
next
  case (4 k r)
  with no_match_in_ws[of v "Unit k # r"] show ?case by simp
next
  case (5 k r u t)
  then show ?case by (cases "r = []") (auto simp: ends_solid_Cons)
next
  case (6 c r)
  with no_match_in_ws[of v "One c # r"] show ?case by simp
next
  case (7 c r u t)
  then show ?case by (cases "r = []") (auto simp: ends_solid_Cons)
next
  case (8 c r)
  with no_match_in_ws[of v "Opt c # r"] show ?case by simp
next
  case (9 c r u t)
  then show ?case by (cases "r = []") (auto simp: ends_solid_Cons)
next
  case (10 c r)
  with no_match_in_ws[of v "Star c # r"] show ?case by simp
next
  case (11 c r u t)
  then show ?case by (cases "r = []") (auto simp: ends_solid_Cons)
next
  case (12 c r)
  with no_match_in_ws[of v "Plus c # r"] show ?case by simp
next
  case (13 c r u t)
  then show ?case by (cases "r = []") (auto simp: ends_solid_Cons matchHere_Star_Nil)
qed

lemma match_starts_solid:
  assumes "starts_solid items" and "matchHere items s"
  shows "s \<noteq> [] \<and> \<not> is_ws (hd s)"
proof (cases items)
  case Nil
  with assms show ?thesis by simp
next
  case (Cons i r)
  have str: "s \<noteq> [] \<and> \<not> is_ws (hd s)"
    if "w \<noteq> []" "solid_char (hd w)" "stripStr w s = Some t" for w t
  proof -
    from that(1) obtain c cs where w: "w = c # cs" by (cases w) auto
    with that(3) obtain u s' where s: "s = u # s'" "cmatch (Chr c) u"
      by (cases s) (auto split: if_splits)
    with that(2) w cmatch_Chr_ws[of c u] show ?thesis by auto
  qed
  show ?thesis
  proof (cases i)
    case (Str w)
    with Cons assms str show ?thesis by (auto split: option.splits)
  next
    case (Unit k)
    with Cons assms show ?thesis by (cases s) auto
  next
    case (One c)
    with Cons assms show ?thesis by (cases s) (auto dest: cmatch_ws)
  next
    case (Opt c)
    with Cons assms show ?thesis by simp
  next
    case (Star c)
    with Cons assms show ?thesis by simp
  next
    case (Plus c)
    with Cons assms show ?thesis by (cases s) (auto dest: cmatch_ws)
  next
    case (Alt ws)
    with Cons assms obtain w t where "w \<in> set ws" "stripStr w s = Some t"
      by (auto simp: list_ex_iff split: option.splits)
    moreover from this(1) Alt Cons assms(1) have "w \<noteq> []" "solid_char (hd w)"
      by (auto simp: list_all_iff)
    ultimately show ?thesis using str by blast
  qed
qed

lemma search_drop_leading:
  "starts_solid p \<Longrightarrow> searchFrom p (dropWhile is_ws s) = searchFrom p s"
proof (induction s)
  case Nil
  then show ?case by simp
next
  case (Cons u s)
  then show ?case using match_starts_solid[of p "u # s"] by auto
qed

lemma search_ws_none: "list_all is_ws v \<Longrightarrow> ends_solid p \<Longrightarrow> \<not> searchFrom p v"
proof (induction v)
  case Nil
  then show ?case using no_match_in_ws[of "[]" p] by simp
next
  case (Cons u v)
  then show ?case using no_match_in_ws[of "u # v" p] by simp
qed

lemma search_before_ws:
  "list_all is_ws v \<Longrightarrow> ends_solid p \<Longrightarrow> searchFrom p (t @ v) \<Longrightarrow> searchFrom p t"
proof (induction t)
  case Nil
  then show ?case using search_ws_none[of v p] by simp
next
  case (Cons u t)
  then show ?case using match_before_ws[of v p "u # t"] by auto
qed

lemma trailing_ws: "\<exists>v. s = rev (dropWhile is_ws (rev s)) @ v \<and> list_all is_ws v"
proof -
  have "rev s = takeWhile is_ws (rev s) @ dropWhile is_ws (rev s)" by simp
  then have "s = rev (dropWhile is_ws (rev s)) @ rev (takeWhile is_ws (rev s))"
    by (metis rev_append rev_rev_ident)
  moreover have "list_all is_ws (rev (takeWhile is_ws (rev s)))"
    by (simp add: list_all_iff) (meson set_takeWhileD)
  ultimately show ?thesis by blast
qed

lemma test_trim_Anchored:
  assumes "starts_solid p" and "ends_solid p" and "matchHere p s"
  shows "matchHere p (trim s)"
proof -
  from match_starts_solid[OF assms(1,3)] have "dropWhile is_ws s = s" by (cases s) auto
  then have t: "trim s = rev (dropWhile is_ws (rev s))" by (simp add: trim_def)
  from trailing_ws[of s] obtain v where v: "s = rev (dropWhile is_ws (rev s)) @ v"
    "list_all is_ws v" by blast
  from assms(3) v(1) have "matchHere p (rev (dropWhile is_ws (rev s)) @ v)" by simp
  from match_before_ws[OF v(2) assms(2) this] t show ?thesis by simp
qed

lemma test_trim_Anywhere:
  assumes "starts_solid p" and "ends_solid p" and "searchFrom p s"
  shows "searchFrom p (trim s)"
proof -
  let ?d = "dropWhile is_ws s"
  from assms(1,3) have d: "searchFrom p ?d" by (simp add: search_drop_leading)
  from trailing_ws[of ?d] obtain v where v: "?d = rev (dropWhile is_ws (rev ?d)) @ v"
    "list_all is_ws v" by blast
  from d v(1) have "searchFrom p (rev (dropWhile is_ws (rev ?d)) @ v)" by simp
  from search_before_ws[OF v(2) assms(2) this] show ?thesis by (simp add: trim_def)
qed

lemma stripStr_app:
  "stripStr (a @ b) s = (case stripStr a s of None \<Rightarrow> None | Some t \<Rightarrow> stripStr b t)"
  by (induction a s rule: stripStr.induct) auto

lemma space_ended_match:
  assumes m: "matchHere [Str (w0 @ '' '')] s"
    and w0: "w0 \<noteq> []" "solid_char (hd w0)" "solid_char (last w0)"
  shows "matchHere [Str (w0 @ '' '')] (trim s) \<or> stripStr w0 (trim s) = Some []"
proof -
  have "starts_solid [Str (w0 @ '' '')]" using w0 by simp
  from match_starts_solid[OF this m] have "dropWhile is_ws s = s" by (cases s) auto
  then have t: "trim s = rev (dropWhile is_ws (rev s))" by (simp add: trim_def)
  from trailing_ws[of s] t obtain v where v: "s = trim s @ v" "list_all is_ws v" by auto
  from m obtain rest where "stripStr (w0 @ '' '') s = Some rest" by (auto split: option.splits)
  with v(1) have "stripStr (w0 @ '' '') (trim s @ v) = Some rest" by simp
  from stripStr_append[OF this] show ?thesis
  proof
    assume "\<exists>t2. stripStr (w0 @ '' '') (trim s) = Some t2 \<and> rest = t2 @ v"
    then show ?thesis by auto
  next
    assume "\<exists>w1 w2. w0 @ '' '' = w1 @ w2 \<and> w2 \<noteq> [] \<and> stripStr w1 (trim s) = Some []
        \<and> stripStr w2 v = Some rest"
    then obtain w1 w2 where w: "w0 @ '' '' = w1 @ w2" "w2 \<noteq> []"
      "stripStr w1 (trim s) = Some []" "stripStr w2 v = Some rest" by blast
    from w(1,2) obtain w2' where w2: "w2 = w2' @ '' ''" "w0 = w1 @ w2'"
      by (cases w2 rule: rev_cases) auto
    have "w2' = []"
    proof (rule ccontr)
      assume ne: "w2' \<noteq> []"
      from w(4) w2(1) obtain t' where "stripStr w2' v = Some t'"
        by (auto simp: stripStr_app split: option.splits)
      from stripStr_ws_not_solid(1)[OF this v(2) ne] have "\<not> solid_char (last w2')" .
      with ne w2(2) w0(3) show False by simp
    qed
    with w2(2) w(3) show ?thesis by simp
  qed
qed

lemma lower_ascii_idem: "lower_ascii (lower_ascii u) = lower_ascii u"
  by (simp add: lower_ascii_def)

lemma cmatch_lower: "cmatch c (lower_ascii u) = cmatch c u"
  by (cases c) (auto simp: lower_ascii_def)

lemma stripStr_lower:
  "stripStr w (map lower_ascii s) = map_option (map lower_ascii) (stripStr w s)"
proof (induction w s rule: stripStr.induct)
  case (3 c cs u t)
  then show ?case using cmatch_lower[of "Chr c" u] by (simp del: cmatch.simps)
qed simp_all

lemma match_lower:
  "unit_free items \<Longrightarrow> matchHere items (map lower_ascii s) = matchHere items s"
proof (induction items s rule: matchHere.induct)
  case (2 w r s)
  then show ?case by (cases "stripStr w s") (simp_all add: stripStr_lower)
next
  case (3 ws r s)
  have "(case stripStr w (map lower_ascii s) of None \<Rightarrow> False | Some t \<Rightarrow> matchHere r t)
      = (case stripStr w s of None \<Rightarrow> False | Some t \<Rightarrow> matchHere r t)" if "w \<in> set ws" for w
    using "3.IH"[OF that] "3.prems" by (cases "stripStr w s") (simp_all add: stripStr_lower)
  then show ?case by (simp add: list_ex_iff)
qed (simp_all add: cmatch_lower del: cmatch.simps)

lemma search_lower:
  "unit_free p \<Longrightarrow> searchFrom p (map lower_ascii s) = searchFrom p s"
proof (induction s)
  case Nil
  then show ?case using match_lower[of p "[]"] by simp
next
  case (Cons u s)
  then show ?case using match_lower[of p "u # s"] by simp
qed

lemma test_lower: "regex_unit_free re \<Longrightarrow> test re (map lower_ascii s) = test re s"
  by (cases re) (simp_all add: match_lower search_lower)

lemma some_test_lower:
  "list_all regex_unit_free patterns \<Longrightarrow>
   some_test patterns (map lower_ascii s) = some_test patterns s"
  by (simp add: some_test_def list_ex_iff list_all_iff test_lower)

lemma stripStr_all:
  "stripStr w s = Some [] \<Longrightarrow> length s = length w \<and> map lower_ascii s = map lower_ascii (js w)"
proof (induction w s rule: stripStr.induct)
  case (3 c cs u t)
  then show ?case by (auto simp: js_def split: if_splits)
qed (simp_all add: js_def)

lemma test_trim: "trim_safe re \<Longrightarrow> test re s \<Longrightarrow> test re (trim s)"
  by (cases re) (simp_all add: test_trim_Anchored test_trim_Anywhere)

lemma thought_table_unit_free: "list_all regex_unit_free THOUGHT_PATTERNS"
  by (simp add: THOUGHT_PATTERNS_def starts_def has_def)

lemma update_table_shapes: "list_all (\<lambda>re. trim_safe re \<or> space_ended re) UPDATE_PATTERNS"
  by (simp add: UPDATE_PATTERNS_def THOUGHT_PATTERNS_def some_test_def starts_def has_def
      solid_char_def is_ws_def js_def lower_ascii_def)

lemma space_ended_falls_to_update:
  assumes "space_ended re" and "test re s"
  shows "test re (trim s) \<or>
         (length (trim s) < 50 \<and> \<not> some_test THOUGHT_PATTERNS (trim s))"
proof -
  from assms(1) obtain w where re: "re = Anchored [Str w]"
    by (cases re rule: space_ended.cases) auto
  with assms(1) have w: "w \<noteq> []" "last w = CHR '' ''" "butlast w \<noteq> []" "solid_char (hd w)"
    "solid_char (last (butlast w))" "length (butlast w) < 50"
    "\<not> some_test THOUGHT_PATTERNS (js (butlast w))" by auto
  let ?w0 = "butlast w"
  from w(1,2) have ww: "w = ?w0 @ '' ''" by (metis append_butlast_last_id)
  from w(3,4) have h: "solid_char (hd ?w0)" by (cases w) (auto split: if_splits)
  from assms(2) re ww have "matchHere [Str (?w0 @ '' '')] s" by simp
  from space_ended_match[OF this w(3) h w(5)]
  show ?thesis
  proof
    assume "matchHere [Str (?w0 @ '' '')] (trim s)"
    with re ww show ?thesis by simp
  next
    assume "stripStr ?w0 (trim s) = Some []"
    from stripStr_all[OF this] have l: "length (trim s) = length ?w0"
      and e: "map lower_ascii (trim s) = map lower_ascii (js ?w0)" by simp_all
    have "some_test THOUGHT_PATTERNS (trim s) = some_test THOUGHT_PATTERNS (map lower_ascii (trim s))"
      by (simp add: some_test_lower[OF thought_table_unit_free])
    also have "\<dots> = some_test THOUGHT_PATTERNS (js ?w0)"
      unfolding e by (simp add: some_test_lower[OF thought_table_unit_free])
    finally show ?thesis using w(6,7) l by simp
  qed
qed

lemma update_match_survives_trim:
  assumes "some_test UPDATE_PATTERNS s"
  shows "some_test UPDATE_PATTERNS (trim s) \<or>
         (length (trim s) < 50 \<and> \<not> some_test THOUGHT_PATTERNS (trim s))"
proof -
  from assms obtain re where re: "re \<in> set UPDATE_PATTERNS" "test re s"
    by (auto simp: some_test_def list_ex_iff)
  from re(1) update_table_shapes have "trim_safe re \<or> space_ended re"
    by (auto simp: list_all_iff)
  then show ?thesis
  proof
    assume "trim_safe re"
    from test_trim[OF this re(2)] re(1) show ?thesis
      by (auto simp: some_test_def list_ex_iff)
  next
    assume "space_ended re"
    from space_ended_falls_to_update[OF this re(2)] re(1) show ?thesis
      by (auto simp: some_test_def list_ex_iff)
  qed
qed

lemma categorizePost_raw_update:
  "some_test UPDATE_PATTERNS s \<Longrightarrow> categorizePost lc s = (Update, False)"
  using update_match_survives_trim[of s]
  by (auto simp: categorizePost_def Let_def)

section \<open>The classifier\<close>

text \<open>
  C4. The pattern categorizer tests the update table first: a content that matches an
  update pattern, before or after trimming, is an update and is not curated, whatever
  thought patterns it matches as well. (The table is applied to the trimmed content; a
  match on the untrimmed content either survives trimming or leaves the bare opening
  word of a pattern, which is short and matches no thought pattern.) The categorizer of
  the import script consults both tables before it decides: a text that matches an
  update pattern is an update unless it also matches a thought pattern and is longer
  than 150 code units, and then it is a thought.
\<close>

theorem update_rules_first:
  "(some_test UPDATE_PATTERNS text \<or> some_test UPDATE_PATTERNS (trim text)
      \<longrightarrow> categorizePost lc text = (Update, False)) \<and>
   (some_test UPDATE_PATTERNS_import text \<longrightarrow>
      fst (categorizePost_import text)
        = (if some_test THOUGHT_PATTERNS_import text \<and> length text > 150 then Thought else Update))"
proof -
  have "categorizePost lc text = (Update, False)" if "some_test UPDATE_PATTERNS (trim text)"
    using that by (simp add: categorizePost_def Let_def)
  moreover have "categorizePost lc text = (Update, False)" if "some_test UPDATE_PATTERNS text"
    using that by (rule categorizePost_raw_update)
  moreover have "some_test UPDATE_PATTERNS_import text \<longrightarrow>
      fst (categorizePost_import text)
        = (if some_test THOUGHT_PATTERNS_import text \<and> length text > 150 then Thought else Update)"
    by (simp add: categorizePost_import_def Let_def)
  ultimately show ?thesis by blast
qed

theorem update_rules_first_witness:
  "some_test UPDATE_PATTERNS (trim fixed_text) \<and> some_test THOUGHT_PATTERNS (trim fixed_text) \<and>
   categorizePost asciiLower fixed_text = (Update, False) \<and>
   some_test UPDATE_PATTERNS padded_text \<and> \<not> some_test UPDATE_PATTERNS (trim padded_text) \<and>
   categorizePost asciiLower padded_text = (Update, False) \<and>
   some_test UPDATE_PATTERNS_import completed_text \<and>
   some_test THOUGHT_PATTERNS_import completed_text \<and>
   fst (categorizePost_import completed_text) = Update"
proof -
  have t: "trim fixed_text = fixed_text"
    by (simp add: trim_def fixed_text_def js_def is_ws_def)
  have u: "some_test UPDATE_PATTERNS (trim fixed_text)"
    unfolding t
  proof (rule some_testI)
    show "starts ''Fixed '' \<in> set UPDATE_PATTERNS" by (simp add: UPDATE_PATTERNS_def)
    show "test (starts ''Fixed '') fixed_text" by (simp add: fixed_text_def rx_defs)
  qed
  have th: "some_test THOUGHT_PATTERNS (trim fixed_text)"
    unfolding t
  proof (rule some_testI)
    show "has ''strategy'' \<in> set THOUGHT_PATTERNS" by (simp add: THOUGHT_PATTERNS_def)
    show "test (has ''strategy'') fixed_text" by (simp add: fixed_text_def rx_defs)
  qed
  have u2: "some_test UPDATE_PATTERNS_import completed_text"
  proof (rule some_testI)
    show "starts ''completed'' \<in> set UPDATE_PATTERNS_import" by (simp add: UPDATE_PATTERNS_import_def)
    show "test (starts ''completed'') completed_text" by (simp add: completed_text_def rx_defs)
  qed
  have th2: "some_test THOUGHT_PATTERNS_import completed_text"
  proof (rule some_testI)
    show "has ''should be'' \<in> set THOUGHT_PATTERNS_import" by (simp add: THOUGHT_PATTERNS_import_def)
    show "test (has ''should be'') completed_text" by (simp add: completed_text_def rx_defs)
  qed
  have l: "\<not> length completed_text > 150" by (simp add: completed_text_def js_def)
  have p: "some_test UPDATE_PATTERNS padded_text"
  proof (rule some_testI)
    show "starts ''Completed '' \<in> set UPDATE_PATTERNS" by (simp add: UPDATE_PATTERNS_def)
    show "test (starts ''Completed '') padded_text" by (simp add: padded_text_def rx_defs)
  qed
  have "trim padded_text = js ''Completed''"
    by (simp add: trim_def padded_text_def js_def is_ws_def)
  then have np: "\<not> some_test UPDATE_PATTERNS (trim padded_text)"
    by (simp add: tbl_defs)
  from update_rules_first[of fixed_text asciiLower]
    update_rules_first[of completed_text asciiLower]
    update_rules_first[of padded_text asciiLower] u th u2 th2 l p np
  show ?thesis by simp
qed

text \<open>
  As first stated (every text that matches an update pattern is an update) the claim
  fails for the categorizer of the import script: \<open>gym_text\<close> matches the update
  pattern \<open>/gym/i\<close> and the thought pattern \<open>/^i think/i\<close>, is 163 code units long,
  and is classified a thought.
\<close>

theorem import_prefers_thought_for_long_text:
  "some_test UPDATE_PATTERNS_import gym_text \<and> fst (categorizePost_import gym_text) = Thought"
  using gym_update gym_thought gym_length by (simp add: categorizePost_import_def Let_def)

text \<open>
  C5. Neither categorizer returns \<open>curated = true\<close> together with the
  category update. A merged entry is not a curated update either, provided that no
  member of the group is a curated update and no curated member has its category unset.
\<close>

theorem never_curated_update:
  "\<not> (fst (categorizePost lc text) = Update \<and> snd (categorizePost lc text)) \<and>
   \<not> (fst (categorizePost_import text) = Update \<and> snd (categorizePost_import text)) \<and>
   (posts \<noteq> [] \<and>
    (\<forall>p \<in> set posts. \<not> (curated p = Some True \<and> category p = Some Update)
                     \<and> \<not> (curated p = Some True \<and> category p = None))
    \<longrightarrow> (\<exists>m. mergeThread posts = Inr m \<and> mergePosts posts = Inr m \<and>
             \<not> (curated m = Some True \<and> category m = Some Update)))"
proof -
  have c1: "\<not> (fst (categorizePost lc text) = Update \<and> snd (categorizePost lc text))"
    by (simp add: categorizePost_def Let_def)
  have c2: "\<not> (fst (categorizePost_import text) = Update \<and> snd (categorizePost_import text))"
    by (simp add: categorizePost_import_def Let_def)
  have c3: "\<exists>m. mergeThread posts = Inr m \<and> mergePosts posts = Inr m \<and>
             \<not> (curated m = Some True \<and> category m = Some Update)"
    if ne: "posts \<noteq> []"
    and inv: "\<forall>p \<in> set posts. \<not> (curated p = Some True \<and> category p = Some Update)
                     \<and> \<not> (curated p = Some True \<and> category p = None)"
  proof -
    have "\<not> (curated (merged posts) = Some True \<and> category (merged posts) = Some Update)"
    proof
      assume "curated (merged posts) = Some True \<and> category (merged posts) = Some Update"
      then obtain p where p: "p \<in> set posts" "curated p = Some True" "category p \<noteq> Some Thought"
        using merged_update_curated by blast
      with inv have "category p \<noteq> Some Update" "category p \<noteq> None" by auto
      with p(3) show False by (cases "category p") (auto intro: category.exhaust)
    qed
    with ne show ?thesis by (simp add: mergeThread_merged mergePosts_merged)
  qed
  from c1 c2 c3 show ?thesis by blast
qed

theorem never_curated_update_witness:
  "categorizePost asciiLower fixed_text = (Update, False) \<and>
   [ex_e, ex_b] \<noteq> [] \<and>
   \<not> (curated ex_e = Some True \<and> category ex_e = Some Update) \<and>
   \<not> (curated ex_e = Some True \<and> category ex_e = None) \<and>
   \<not> (curated ex_b = Some True \<and> category ex_b = Some Update) \<and>
   \<not> (curated ex_b = Some True \<and> category ex_b = None) \<and>
   (\<exists>m. mergeThread [ex_e, ex_b] = Inr m \<and> mergePosts [ex_e, ex_b] = Inr m \<and>
        \<not> (curated m = Some True \<and> category m = Some Update))"
proof -
  have h: "[ex_e, ex_b] \<noteq> [] \<and>
    (\<forall>p \<in> set [ex_e, ex_b]. \<not> (curated p = Some True \<and> category p = Some Update)
                     \<and> \<not> (curated p = Some True \<and> category p = None))"
    by (simp add: ex_b_def ex_e_def)
  have m: "\<exists>m. mergeThread [ex_e, ex_b] = Inr m \<and> mergePosts [ex_e, ex_b] = Inr m \<and>
        \<not> (curated m = Some True \<and> category m = Some Update)"
    using never_curated_update[of asciiLower fixed_text "[ex_e, ex_b]"] h by blast
  have c: "categorizePost asciiLower fixed_text = (Update, False)"
  proof -
    have t: "trim fixed_text = fixed_text"
      by (simp add: trim_def fixed_text_def js_def is_ws_def)
    have "test (starts ''Fixed '') fixed_text" by (simp add: fixed_text_def rx_defs)
    then have "some_test UPDATE_PATTERNS (trim fixed_text)"
      unfolding t by (intro some_testI[of "starts ''Fixed ''"]) (simp_all add: UPDATE_PATTERNS_def)
    then show ?thesis by (simp add: categorizePost_def Let_def)
  qed
  from c m h show ?thesis by simp
qed

text \<open>
  Without the second proviso the claim fails: \<open>ex_c\<close> is curated and has no category,
  so neither \<open>ex_c\<close> nor \<open>ex_d\<close> is a curated update, and their merge is one.
\<close>

theorem merge_of_uncategorized_curated:
  "\<not> (curated ex_c = Some True \<and> category ex_c = Some Update) \<and>
   \<not> (curated ex_d = Some True \<and> category ex_d = Some Update) \<and>
   mergeThread [ex_c, ex_d] =
     Inr \<lparr> post_id = ''c'', content = [67, 10, 10, 68], timestamp = 1200000,
           category = Some Update, curated = Some True \<rparr> \<and>
   mergePosts [ex_c, ex_d] =
     Inr \<lparr> post_id = ''c'', content = [67, 10, 10, 68], timestamp = 1200000,
           category = Some Update, curated = Some True \<rparr>"
  by (simp add: mergeThread_def mergePosts_def sortAsc_def ex_defs js_def blank_line_def)

section \<open>The temporal grouper\<close>

text \<open>
  C7. Clustering is chained. On a time-sorted input the groups concatenate to the input,
  and the entries at positions \<open>i\<close> and \<open>i + 1\<close> are in the same group exactly when their
  gap is at most the threshold. Hence entries at \<open>t\<close>, \<open>t + d\<close>, \<open>t + 2d\<close> with \<open>d\<close> at
  most the threshold form one group, whatever the span \<open>2d\<close> is.
\<close>

theorem chained_clustering:
  assumes "sorted (map timestamp posts)"
  shows "concat (groupByTimeProximity posts) = posts \<and>
    (\<forall>i. Suc i < length posts \<longrightarrow>
       (cluster_of (groupByTimeProximity posts) i = cluster_of (groupByTimeProximity posts) (Suc i))
         = (timestamp (posts ! Suc i) - timestamp (posts ! i) \<le> TIME_THRESHOLD_MS)) \<and>
    (\<forall>a b c d. posts = [a, b, c] \<and> timestamp b = timestamp a + d \<and> timestamp c = timestamp a + 2 * d
        \<and> d \<le> TIME_THRESHOLD_MS
       \<longrightarrow> groupByTimeProximity posts = [[a, b, c]])"
proof -
  let ?near = "\<lambda>a b. timestamp b - timestamp a \<le> TIME_THRESHOLD_MS"
  have gs: "groupByTimeProximity posts = chain ?near posts"
    using assms by (simp add: groupByTimeProximity_chain sortAsc_id)
  have "\<And>a b c d. posts = [a, b, c] \<Longrightarrow> timestamp b = timestamp a + d \<Longrightarrow>
      timestamp c = timestamp a + 2 * d \<Longrightarrow> d \<le> TIME_THRESHOLD_MS \<Longrightarrow>
      chain ?near posts = [[a, b, c]]"
    by (simp add: chain_linked)
  then show ?thesis
    unfolding gs by (auto simp: concat_chain cluster_of_chain)
qed

theorem chained_clustering_witness:
  "sorted (map timestamp [ex_a, ex_b, ex_c, ex_d]) \<and>
   concat (groupByTimeProximity [ex_a, ex_b, ex_c, ex_d]) = [ex_a, ex_b, ex_c, ex_d] \<and>
   cluster_of (groupByTimeProximity [ex_a, ex_b, ex_c, ex_d]) 0
     = cluster_of (groupByTimeProximity [ex_a, ex_b, ex_c, ex_d]) 1 \<and>
   cluster_of (groupByTimeProximity [ex_a, ex_b, ex_c, ex_d]) 2
     \<noteq> cluster_of (groupByTimeProximity [ex_a, ex_b, ex_c, ex_d]) 3 \<and>
   groupByTimeProximity [ex_a, ex_b, ex_c] = [[ex_a, ex_b, ex_c]] \<and>
   timestamp ex_c - timestamp ex_a > TIME_THRESHOLD_MS"
proof -
  let ?W = "[ex_a, ex_b, ex_c, ex_d]"
  have s4: "sorted (map timestamp ?W)" by (simp add: ex_defs)
  have s3: "sorted (map timestamp [ex_a, ex_b, ex_c])" by (simp add: ex_defs)
  note t4 = chained_clustering[OF s4]
  have c: "concat (groupByTimeProximity ?W) = ?W" using t4 by blast
  have q: "\<And>i. Suc i < length ?W \<Longrightarrow>
      (cluster_of (groupByTimeProximity ?W) i = cluster_of (groupByTimeProximity ?W) (Suc i))
        = (timestamp (?W ! Suc i) - timestamp (?W ! i) \<le> TIME_THRESHOLD_MS)"
    using t4 by blast
  have q0: "cluster_of (groupByTimeProximity ?W) 0 = cluster_of (groupByTimeProximity ?W) 1"
    using q[of 0] by (simp add: ex_defs TIME_THRESHOLD_MS_def)
  have q2: "cluster_of (groupByTimeProximity ?W) 2 \<noteq> cluster_of (groupByTimeProximity ?W) 3"
    using q[of 2] by (simp add: ex_defs TIME_THRESHOLD_MS_def eval_nat_numeral)
  have "\<forall>a b c d. [ex_a, ex_b, ex_c] = [a, b, c] \<and> timestamp b = timestamp a + d
        \<and> timestamp c = timestamp a + 2 * d \<and> d \<le> TIME_THRESHOLD_MS
       \<longrightarrow> groupByTimeProximity [ex_a, ex_b, ex_c] = [[a, b, c]]"
    using chained_clustering[OF s3] by blast
  then have "[ex_a, ex_b, ex_c] = [ex_a, ex_b, ex_c] \<and> timestamp ex_b = timestamp ex_a + 600000
        \<and> timestamp ex_c = timestamp ex_a + 2 * 600000 \<and> 600000 \<le> TIME_THRESHOLD_MS
       \<longrightarrow> groupByTimeProximity [ex_a, ex_b, ex_c] = [[ex_a, ex_b, ex_c]]"
    by blast
  then have g3: "groupByTimeProximity [ex_a, ex_b, ex_c] = [[ex_a, ex_b, ex_c]]"
    by (simp add: ex_defs TIME_THRESHOLD_MS_def)
  have span: "timestamp ex_c - timestamp ex_a > TIME_THRESHOLD_MS"
    by (simp add: ex_defs TIME_THRESHOLD_MS_def)
  from s4 c q0 q2 g3 span show ?thesis by blast
qed

text \<open>
  C9. For every input list, \<open>groupByTimeProximity\<close> and \<open>detectThreads\<close> return only
  non-empty groups, and the groups concatenated in order are the input sorted ascending
  by timestamp: a sorted list with exactly the entries of the input, each as often as
  the input holds it.
\<close>

theorem grouper_partitions_sorted_input:
  "[] \<notin> set (groupByTimeProximity posts) \<and>
   concat (groupByTimeProximity posts) = sortAsc posts \<and>
   [] \<notin> set (detectThreads posts) \<and>
   concat (detectThreads posts) = sortAsc posts \<and>
   sorted (map timestamp (sortAsc posts)) \<and>
   mset (sortAsc posts) = mset posts"
  by (simp add: groupByTimeProximity_chain detectThreads_chain chain_nonempty concat_chain
      sortAsc_sorted sortAsc_mset)

lemma sortAsc_ex: "sortAsc [ex_c, ex_a, ex_d, ex_b] = [ex_a, ex_b, ex_c, ex_d]"
  by (simp add: sortAsc_def ex_defs)

theorem grouper_partitions_sorted_input_witness:
  "[] \<notin> set (groupByTimeProximity [ex_c, ex_a, ex_d, ex_b]) \<and>
   concat (groupByTimeProximity [ex_c, ex_a, ex_d, ex_b]) = [ex_a, ex_b, ex_c, ex_d] \<and>
   [] \<notin> set (detectThreads [ex_c, ex_a, ex_d, ex_b]) \<and>
   concat (detectThreads [ex_c, ex_a, ex_d, ex_b]) = [ex_a, ex_b, ex_c, ex_d]"
  using grouper_partitions_sorted_input[of "[ex_c, ex_a, ex_d, ex_b]"]
  by (simp only: sortAsc_ex) simp

section \<open>The merge policy\<close>

text \<open>
  C1. \<open>shouldMerge\<close> refuses every pair of entries whose categories differ
  when the content of either matches a standalone-update pattern, whatever the time gap.
  The output of \<open>main\<close> is made of the threads of the sweep, each merged, and in no
  thread are two neighbours of different categories with a standalone update among the
  two.
\<close>

theorem standalone_veto_between_neighbours:
  "(category p \<noteq> category q \<and> (isStandaloneUpdate (content p) \<or> isStandaloneUpdate (content q))
      \<longrightarrow> \<not> shouldMerge p q) \<and>
   main_rules posts = Inr (sortDesc (map mergeStep (threads_rules posts))) \<and>
   concat (threads_rules posts) = sortAsc posts \<and>
   (\<forall>g \<in> set (threads_rules posts).
      successively (\<lambda>a b. \<not> (category a \<noteq> category b \<and>
                     (isStandaloneUpdate (content a) \<or> isStandaloneUpdate (content b)))) g)"
proof -
  have "successively (\<lambda>a b. \<not> (category a \<noteq> category b \<and>
                     (isStandaloneUpdate (content a) \<or> isStandaloneUpdate (content b)))) g"
    if "g \<in> set (threads_rules posts)" for g
  proof -
    from that have "successively shouldMerge g"
      unfolding threads_rules_def by (rule chain_within)
    then show ?thesis
      by (rule successively_mono) (use shouldMerge_veto in blast)
  qed
  then show ?thesis
    using shouldMerge_veto[of p q]
    by (auto simp: main_rules_eq threads_rules_def concat_chain)
qed

theorem standalone_veto_between_neighbours_witness:
  "category veto_s \<noteq> category veto_t \<and> isStandaloneUpdate (content veto_s) \<and>
   \<bar>timestamp veto_t - timestamp veto_s\<bar> \<le> TIME_THRESHOLD_MS_rules \<and>
   \<not> shouldMerge veto_s veto_t \<and>
   main_rules [veto_s, veto_t] = Inr [veto_t, veto_s]"
proof -
  have c: "category veto_s \<noteq> category veto_t" by (simp add: veto_s_def veto_t_def)
  have t: "\<bar>timestamp veto_t - timestamp veto_s\<bar> \<le> TIME_THRESHOLD_MS_rules"
    by (simp add: veto_s_def veto_t_def TIME_THRESHOLD_MS_rules_def)
  have n: "\<not> shouldMerge veto_s veto_t"
    using standalone_veto_between_neighbours[of veto_s veto_t "[veto_s, veto_t]"] c veto_standalone
    by blast
  have s: "sortAsc [veto_s, veto_t] = [veto_s, veto_t]" "sortDesc [veto_s, veto_t] = [veto_t, veto_s]"
    by (simp_all add: sortAsc_def sortDesc_def veto_s_def veto_t_def)
  have "main_rules [veto_s, veto_t] = Inr [veto_t, veto_s]"
    using n by (simp add: main_rules_def s)
  with c t n veto_standalone show ?thesis by blast
qed

text \<open>
  As first stated the claim fails, because the veto only compares an entry with the last
  entry of the open thread: \<open>veto_s\<close> is a standalone update, \<open>veto_u\<close> is an update that
  continues it, \<open>veto_t\<close> is a thought that continues \<open>veto_u\<close>, and the three come out
  as one merged entry. The three entries carry the labels that the pattern categorizer
  gives them.
\<close>

theorem standalone_update_merged_through_chain:
  "map (classifyPost asciiLower) [veto_s, veto_u, veto_t] = [veto_s, veto_u, veto_t] \<and>
   isStandaloneUpdate (content veto_s) \<and> category veto_s = Some Update \<and>
   category veto_t = Some Thought \<and>
   main_rules [veto_s, veto_u, veto_t] =
     Inr [\<lparr> post_id = ''s'',
            content = content veto_s @ blank_line @ content veto_u @ blank_line @ content veto_t,
            timestamp = 0, category = Some Thought, curated = Some False \<rparr>]"
proof -
  have "main_rules [veto_s, veto_u, veto_t] = Inr [merged [veto_s, veto_u, veto_t]]"
    using veto_su veto_ut
    by (simp add: main_rules_def sort_sut mergePosts_merged sortDesc_def)
  moreover have "merged [veto_s, veto_u, veto_t] = \<lparr> post_id = ''s'',
            content = content veto_s @ blank_line @ content veto_u @ blank_line @ content veto_t,
            timestamp = 0, category = Some Thought, curated = Some False \<rparr>"
    by (simp add: merged_def sort_sut) (simp add: veto_s_def veto_u_def veto_t_def)
  ultimately show ?thesis
    using veto_standalone by (simp add: cls_veto_s cls_veto_u cls_veto_t) (simp add: veto_s_def veto_t_def)
qed

text \<open>
  C3. When the oracle's reply for a group cannot be parsed (no bracketed
  array in the text, or \<open>JSON.parse\<close> throws), every member of the group goes to the
  output as an entry of its own, and a run in which every reply is unparseable ends
  without an exception with all entries of the input, newest first. A reply that
  parses is the partition used, as it is.
\<close>

theorem unparseable_reply_falls_back:
  "(unparseable r \<longrightarrow>
      placeThreads grp (analyzeThreadGroup grp r) slots = Inr (slots @ map Some grp)) \<and>
   ((\<forall>g. unparseable (judge g)) \<longrightarrow> main_oracle judge posts = Inr (map Some (sortDesc posts))) \<and>
   analyzeThreadGroup grp (Parsed groups) = groups"
proof -
  have "main_oracle judge posts = Inr (map Some (sortDesc posts))" if "\<forall>g. unparseable (judge g)"
  proof -
    have "oracleLoop judge (groupByTimeProximity posts) []
        = Inr (map Some (concat (groupByTimeProximity posts)))"
      using that oracleLoop_unparseable[of judge "groupByTimeProximity posts" "[]"] by simp
    then show ?thesis
      by (simp add: main_oracle_def groupByTimeProximity_chain concat_chain sortDescSlots_Some
          sortDesc_after_sortAsc_any)
  qed
  moreover have "analyzeThreadGroup grp (Parsed groups) = groups"
    by (simp add: analyzeThreadGroup_def)
  moreover have "unparseable r \<longrightarrow>
      placeThreads grp (analyzeThreadGroup grp r) slots = Inr (slots @ map Some grp)"
    by (simp add: analyze_unparseable placeThreads_fallback)
  ultimately show ?thesis by blast
qed

theorem unparseable_reply_falls_back_witness:
  "unparseable BadJson \<and>
   placeThreads [ex_a, ex_b, ex_c] (analyzeThreadGroup [ex_a, ex_b, ex_c] BadJson) []
     = Inr [Some ex_a, Some ex_b, Some ex_c] \<and>
   main_oracle (\<lambda>g. NoMatch) [ex_a, ex_b, ex_c] = Inr [Some ex_c, Some ex_b, Some ex_a]"
proof -
  have u: "unparseable BadJson" "\<forall>g. unparseable ((\<lambda>g. NoMatch) g)"
    by (simp_all add: unparseable_def)
  have s: "sortDesc [ex_a, ex_b, ex_c] = [ex_c, ex_b, ex_a]"
    by (simp add: sortDesc_def ex_defs)
  from unparseable_reply_falls_back[of BadJson "[ex_a, ex_b, ex_c]" "[]" "\<lambda>g. NoMatch" "[ex_a, ex_b, ex_c]"] u s
  show ?thesis by simp
qed

text \<open>
  The claim fails for a reply that parses: the indices are not validated. For the group
  \<open>ex_a\<close>, \<open>ex_b\<close>, \<open>ex_c\<close>, a partition that leaves out index 2 loses \<open>ex_c\<close>, one that
  names index 2 twice writes \<open>ex_c\<close> twice, a one-element group with the index 7 puts
  \<open>undefined\<close> in the output, and a longer group with the index 7 throws and ends the
  run.
\<close>

theorem corrupt_partition_is_used_as_returned:
  "groupByTimeProximity [ex_a, ex_b, ex_c] = [[ex_a, ex_b, ex_c]] \<and>
   main_oracle (\<lambda>g. Parsed [[0, 1]]) [ex_a, ex_b, ex_c]
     = Inr [Some \<lparr> post_id = ''a'', content = [65, 10, 10, 66], timestamp = 0,
                     category = Some Thought, curated = Some False \<rparr>] \<and>
   main_oracle (\<lambda>g. Parsed [[0], [1], [2], [2]]) [ex_a, ex_b, ex_c]
     = Inr [Some ex_c, Some ex_c, Some ex_b, Some ex_a] \<and>
   main_oracle (\<lambda>g. Parsed [[0], [1], [7]]) [ex_a, ex_b, ex_c]
     = Inr [Some ex_b, Some ex_a, None] \<and>
   main_oracle (\<lambda>g. Parsed [[0], [1], [2, 7]]) [ex_a, ex_b, ex_c] = Inl TypeError"
proof -
  have ab: "mergePosts [ex_a, ex_b]
     = Inr \<lparr> post_id = ''a'', content = [65, 10, 10, 66], timestamp = 0,
                     category = Some Thought, curated = Some False \<rparr>"
    by (simp add: mergePosts_def sortAsc_def ex_defs js_def blank_line_def)
  have s1: "sortDesc [ex_a, ex_b, ex_c, ex_c] = [ex_c, ex_c, ex_b, ex_a]"
    by (simp add: sortDesc_def ex_defs)
  have s2: "sortDesc [ex_a, ex_b] = [ex_b, ex_a]"
    by (simp add: sortDesc_def ex_defs)
  have s3: "sortDesc [m] = [m]" for m
    by (simp add: sortDesc_def)
  show ?thesis
    by (simp add: main_oracle_def group_abc analyzeThreadGroup_def at_index_def
        mergePosts_oracle_def ab sortDescSlots_def s1 s2 s3)
qed

section \<open>The merger\<close>

text \<open>
  C6. For a group of two or more entries \<open>mergeThread\<close> and \<open>mergePosts\<close> return the
  same entry \<open>m\<close>. Its content is the members' contents joined with a blank line in
  ascending timestamp order: the order \<open>s\<close> is a sorted rearrangement of the group
  (entries with equal timestamps stay in arrival order). Its id is that of the first
  entry of \<open>s\<close>, its category is \<open>Thought\<close> if some member is a thought and \<open>Update\<close>
  otherwise, and it is curated exactly when some member is. When the timestamps are
  pairwise distinct, every arrival order of the same entries gives the same \<open>m\<close>.
\<close>

theorem merge_multi_member:
  assumes "2 \<le> length posts"
  shows "\<exists>m s. mergeThread posts = Inr m \<and> mergePosts posts = Inr m \<and>
      mset s = mset posts \<and> sorted (map timestamp s) \<and>
      (\<forall>k. filter (\<lambda>p. timestamp p = k) s = filter (\<lambda>p. timestamp p = k) posts) \<and>
      content m = join blank_line (map content s) \<and>
      post_id m = post_id (hd s) \<and>
      category m = Some (if (\<exists>p \<in> set posts. category p = Some Thought) then Thought else Update) \<and>
      curated m = Some (\<exists>p \<in> set posts. curated p = Some True) \<and>
      (distinct (map timestamp posts) \<longrightarrow>
         (\<forall>arrival. mset arrival = mset posts \<longrightarrow>
            mergeThread arrival = Inr m \<and> mergePosts arrival = Inr m))"
proof -
  from assms have ne: "posts \<noteq> []" by auto
  have arr: "mergeThread arrival = Inr (merged posts) \<and> mergePosts arrival = Inr (merged posts)"
    if d: "distinct (map timestamp posts)" and m: "mset arrival = mset posts" for arrival
  proof -
    from m ne have "arrival \<noteq> []" by auto
    moreover have "merged arrival = merged posts"
      using sortAsc_arrival[OF d m] by (simp add: merged_def)
    ultimately show ?thesis by (simp add: mergeThread_merged mergePosts_merged)
  qed
  show ?thesis
    apply (rule exI[of _ "merged posts"])
    apply (rule exI[of _ "sortAsc posts"])
    using ne arr merged_fields[of posts]
    by (simp add: mergeThread_merged mergePosts_merged sortAsc_mset sortAsc_sorted sortAsc_stable)
qed

theorem merge_multi_member_witness:
  "2 \<le> length [ex_c, ex_a] \<and> distinct (map timestamp [ex_c, ex_a]) \<and>
   mergePosts [ex_a, ex_c] = mergeThread [ex_c, ex_a] \<and>
   mergeThread [ex_c, ex_a] =
     Inr \<lparr> post_id = ''a'', content = [65, 10, 10, 67], timestamp = 0,
           category = Some Thought, curated = Some True \<rparr>"
proof -
  have h: "2 \<le> length [ex_c, ex_a]" by simp
  have d: "distinct (map timestamp [ex_c, ex_a])" by (simp add: ex_defs)
  have m: "mset [ex_a, ex_c] = mset [ex_c, ex_a]" by simp
  have e: "mergeThread [ex_c, ex_a] =
     Inr \<lparr> post_id = ''a'', content = [65, 10, 10, 67], timestamp = 0,
           category = Some Thought, curated = Some True \<rparr>"
    by (simp add: mergeThread_def sortAsc_def ex_defs js_def blank_line_def)
  from merge_multi_member[OF h] obtain mm where a: "mergeThread [ex_c, ex_a] = Inr mm"
    and b: "distinct (map timestamp [ex_c, ex_a]) \<longrightarrow>
         (\<forall>arrival. mset arrival = mset [ex_c, ex_a] \<longrightarrow>
            mergeThread arrival = Inr mm \<and> mergePosts arrival = Inr mm)"
    by blast
  from b d m have "mergePosts [ex_a, ex_c] = Inr mm" by blast
  with a have "mergePosts [ex_a, ex_c] = mergeThread [ex_c, ex_a]" by simp
  with h d e show ?thesis by blast
qed

text \<open>
  C8. Applied to a group of exactly one entry, \<open>mergeThread\<close> and \<open>mergePosts\<close> return
  an entry with the id, content and timestamp of the member; its category is the
  member's when that is set and \<open>update\<close> otherwise, and its curated flag is true when
  the member's is true and false otherwise. So the member comes back unchanged exactly when
  its category and its curated flag are both set. The scripts never hand such a group to
  the merge function (\<open>thread.length > 1 ? mergeThread(thread) : thread[0]\<close>): out of the
  callback of merge-threads-local.ts, the loop of the pattern-based merger and the oracle
  script, and so out of a one-entry run of the pipelines, the member comes unchanged, also
  when the optional fields are unset.
\<close>

theorem singleton_merge_keeps_set_fields:
  "mergeThread [p] =
     Inr (p\<lparr> category := Some (if category p = Some Thought then Thought else Update),
              curated := Some (curated p = Some True) \<rparr>) \<and>
   mergePosts [p] =
     Inr (p\<lparr> category := Some (if category p = Some Thought then Thought else Update),
              curated := Some (curated p = Some True) \<rparr>) \<and>
   ((mergeThread [p] = Inr p) = (category p \<noteq> None \<and> curated p \<noteq> None)) \<and>
   ((mergePosts [p] = Inr p) = (category p \<noteq> None \<and> curated p \<noteq> None)) \<and>
   mergeOrKeep [p] = Inr (Some p) \<and>
   main_local [p] = Inr [Some p] \<and>
   rulesLoop [] finalPosts [p] = Inr (finalPosts @ [p]) \<and>
   main_rules [p] = Inr [p] \<and>
   oracleLoop judge ([p] # rest) slots = oracleLoop judge rest (slots @ [Some p])"
proof -
  let ?m = "p\<lparr> category := Some (if category p = Some Thought then Thought else Update),
                curated := Some (curated p = Some True) \<rparr>"
  have t: "mergeThread [p] = Inr ?m"
    by (simp add: mergeThread_def sortAsc_def)
  have r: "mergePosts [p] = Inr ?m"
    by (simp add: mergePosts_def sortAsc_def)
  have e: "(?m = p) = (category p \<noteq> None \<and> curated p \<noteq> None)"
  proof (cases p)
    case (fields i c ts cat cur)
    show ?thesis
    proof (cases cat)
      case None
      then show ?thesis using fields by simp
    next
      case (Some k)
      then show ?thesis using fields by (cases k; cases cur) auto
    qed
  qed
  have k: "mergeOrKeep [p] = Inr (Some p) \<and>
   main_local [p] = Inr [Some p] \<and>
   rulesLoop [] finalPosts [p] = Inr (finalPosts @ [p]) \<and>
   main_rules [p] = Inr [p] \<and>
   oracleLoop judge ([p] # rest) slots = oracleLoop judge rest (slots @ [Some p])"
    by (simp add: mergeOrKeep_def main_local_eq detectThreads_chain main_rules_eq threads_rules_def
      mergeStep_def sortAsc_def sortDesc_def)
  from t r e k show ?thesis by simp
qed

theorem singleton_merge_keeps_set_fields_witness:
  "mergeThread [ex_e] = Inr ex_e \<and> mergePosts [ex_e] = Inr ex_e \<and>
   category ex_d = None \<and> curated ex_d = None \<and>
   mergeOrKeep [ex_d] = Inr (Some ex_d) \<and> main_local [ex_d] = Inr [Some ex_d] \<and>
   main_rules [ex_d] = Inr [ex_d]"
  using singleton_merge_keeps_set_fields[of ex_e "[]" "\<lambda>g. NoMatch" "[]" "[]"]
    singleton_merge_keeps_set_fields[of ex_d "[]" "\<lambda>g. NoMatch" "[]" "[]"]
  by (simp add: ex_d_def ex_e_def)

text \<open>
  For the merge function itself the claim fails on an entry with an unset field: \<open>ex_d\<close>
  has neither field and comes back as an update that is not curated, \<open>ex_b\<close> has no
  curated flag and gets \<open>false\<close>, \<open>ex_c\<close> has no category and gets \<open>update\<close>.
\<close>

theorem singleton_merge_fills_unset_fields:
  "category ex_d = None \<and> curated ex_d = None \<and>
   mergeThread [ex_d] = Inr (ex_d\<lparr> category := Some Update, curated := Some False \<rparr>) \<and>
   mergeThread [ex_d] \<noteq> Inr ex_d \<and>
   mergePosts [ex_d] \<noteq> Inr ex_d \<and>
   mergeThread [ex_b] = Inr (ex_b\<lparr> curated := Some False \<rparr>) \<and>
   mergeThread [ex_b] \<noteq> Inr ex_b \<and>
   mergeThread [ex_c] = Inr (ex_c\<lparr> category := Some Update \<rparr>) \<and>
   mergeThread [ex_c] \<noteq> Inr ex_c"
  by (simp add: mergeThread_def mergePosts_def sortAsc_def ex_b_def ex_c_def ex_d_def)

section \<open>The pipelines\<close>

text \<open>
  C2. A run of either pipeline on the output of a previous run returns that
  output unchanged exactly when no two time-adjacent entries of the output pass the join
  test of the pipeline (\<open>shouldMerge\<close>, or the test of \<open>detectThreads\<close>).
\<close>

theorem rerun_unchanged_iff_nothing_left_to_merge:
  "(main_rules posts = Inr out \<longrightarrow>
      (main_rules out = Inr out) = successively (\<lambda>a b. \<not> shouldMerge a b) (sortAsc out)) \<and>
   (main_local posts = Inr (map Some out) \<longrightarrow>
      (main_local out = Inr (map Some out))
        = successively (\<lambda>a b. \<not> threadLink a b) (sortAsc out))"
proof -
  have a: "(main_rules out = Inr out) = successively (\<lambda>a b. \<not> shouldMerge a b) (sortAsc out)"
    if "main_rules posts = Inr out"
  proof -
    from that have "out = sortDesc (map mergeStep (threads_rules posts))"
      by (simp add: main_rules_eq)
    from rerun_generic[OF this, of shouldMerge] show ?thesis
      by (simp add: main_rules_eq threads_rules_def)
  qed
  have b: "(main_local out = Inr (map Some out))
        = successively (\<lambda>a b. \<not> threadLink a b) (sortAsc out)"
    if "main_local posts = Inr (map Some out)"
  proof -
    from that have "map Some out = map Some (sortDesc (map mergeStep (detectThreads posts)))"
      by (simp add: main_local_eq)
    then have "out = sortDesc (map mergeStep (detectThreads posts))"
      by (simp add: inj_map_eq_map)
    from rerun_generic[OF this, of threadLink] show ?thesis
      by (simp add: main_local_eq detectThreads_chain inj_map_eq_map)
  qed
  from a b show ?thesis by blast
qed

theorem rerun_unchanged_iff_nothing_left_to_merge_witness:
  "main_rules [veto_s, veto_t] = Inr [veto_t, veto_s] \<and>
   successively (\<lambda>a b. \<not> shouldMerge a b) (sortAsc [veto_t, veto_s]) \<and>
   main_rules [veto_t, veto_s] = Inr [veto_t, veto_s] \<and>
   main_local [ex_a, ex_d] = Inr (map Some [ex_d, ex_a]) \<and>
   successively (\<lambda>a b. \<not> threadLink a b) (sortAsc [ex_d, ex_a]) \<and>
   main_local [ex_d, ex_a] = Inr (map Some [ex_d, ex_a])"
proof -
  have s: "sortAsc [veto_s, veto_t] = [veto_s, veto_t]" "sortDesc [veto_s, veto_t] = [veto_t, veto_s]"
    "sortAsc [veto_t, veto_s] = [veto_s, veto_t]"
    by (simp_all add: sortAsc_def sortDesc_def veto_s_def veto_t_def)
  have r1: "main_rules [veto_s, veto_t] = Inr [veto_t, veto_s]"
    using veto_st by (simp add: main_rules_def s)
  have r2: "successively (\<lambda>a b. \<not> shouldMerge a b) (sortAsc [veto_t, veto_s])"
    using veto_st by (simp add: s)
  have t: "sortAsc [ex_a, ex_d] = [ex_a, ex_d]" "sortDesc [ex_a, ex_d] = [ex_d, ex_a]"
    "sortAsc [ex_d, ex_a] = [ex_a, ex_d]"
    by (simp_all add: sortAsc_def sortDesc_def ex_defs)
  have nl: "\<not> threadLink ex_a ex_d"
    by (simp add: threadLink_def ex_defs THREAD_THRESHOLD_MS_def)
  have l1: "main_local [ex_a, ex_d] = Inr (map Some [ex_d, ex_a])"
    using nl by (simp add: main_local_eq detectThreads_chain t mergeStep_def)
  have l2: "successively (\<lambda>a b. \<not> threadLink a b) (sortAsc [ex_d, ex_a])"
    using nl by (simp add: t)
  note th = rerun_unchanged_iff_nothing_left_to_merge
  from th[of "[veto_s, veto_t]" "[veto_t, veto_s]"] r1 r2
  have r3: "main_rules [veto_t, veto_s] = Inr [veto_t, veto_s]" by blast
  from th[of "[ex_a, ex_d]" "[ex_d, ex_a]"] l1 l2
  have l3: "main_local [ex_d, ex_a] = Inr (map Some [ex_d, ex_a])" by blast
  from r1 r2 r3 l1 l2 l3 show ?thesis by blast
qed

text \<open>
  Idempotence fails in general: a merged entry can pass a test that its members failed.
  In the first example the merged thought \<open>rerun_ab\<close> is longer than 100 code units,
  which its last member was not; in the second the merged update \<open>local_u12\<close> is. All
  entries carry the labels that the pattern categorizer gives them.
\<close>

theorem second_run_merges_again:
  "map (classifyPost asciiLower) [rerun_a, rerun_b, rerun_c] = [rerun_a, rerun_b, rerun_c] \<and>
   map (classifyPost asciiLower) [rerun_c, rerun_ab] = [rerun_c, rerun_ab] \<and>
   map (classifyPost asciiLower) [local_u1, local_u2, local_t] = [local_u1, local_u2, local_t] \<and>
   map (classifyPost asciiLower) [local_t, local_u12] = [local_t, local_u12] \<and>
   main_rules [rerun_a, rerun_b, rerun_c] = Inr [rerun_c, rerun_ab] \<and>
   main_rules [rerun_c, rerun_ab] = Inr [rerun_abc] \<and>
   main_rules [rerun_c, rerun_ab] \<noteq> Inr [rerun_c, rerun_ab] \<and>
   main_local [local_u1, local_u2, local_t] = Inr [Some local_t, Some local_u12] \<and>
   main_local [local_t, local_u12] = Inr [Some local_u12t] \<and>
   main_local [local_t, local_u12] \<noteq> Inr [Some local_t, Some local_u12]"
  by (simp add: rerun_first rerun_second local_first local_second
      cls_rerun_a cls_rerun_b cls_rerun_c cls_rerun_ab
      cls_local_u1 cls_local_u2 cls_local_t cls_local_u12)

text \<open>
  C10. The pattern-based merger and merge-threads-local.ts both finish without an
  exception, their output has at most as many entries as the input, and every id in the
  output is the id of an input entry.
\<close>

theorem output_no_larger_ids_from_input:
  "(\<exists>out. main_rules posts = Inr out \<and> length out \<le> length posts \<and>
          set (map post_id out) \<subseteq> set (map post_id posts)) \<and>
   (\<exists>out. main_local posts = Inr (map Some out) \<and> length out \<le> length posts \<and>
          set (map post_id out) \<subseteq> set (map post_id posts))"
proof -
  have a: "length (sortDesc (map mergeStep (chain link (sortAsc posts)))) \<le> length posts" for link
    using mergeStep_length_ids[of link "sortAsc posts"]
    by (simp add: sortDesc_length sortAsc_length)
  have "set (map post_id (sortDesc ys)) = set (map post_id ys)" for ys
    by (simp add: sortDesc_set)
  then have b: "set (map post_id (sortDesc (map mergeStep (chain link (sortAsc posts)))))
      \<subseteq> set (map post_id posts)" for link
    using mergeStep_length_ids[of link "sortAsc posts"] sortAsc_set[of posts]
    by (metis list.set_map)
  show ?thesis
    using a[of shouldMerge] b[of shouldMerge] a[of threadLink] b[of threadLink]
    by (simp add: main_rules_eq main_local_eq threads_rules_def detectThreads_chain)
qed

theorem output_no_larger_ids_from_input_witness:
  "(\<exists>out. main_rules [ex_c, ex_a, ex_d, ex_b] = Inr out \<and> length out \<le> 4 \<and>
          set (map post_id out) \<subseteq> {''a'', ''b'', ''c'', ''d''}) \<and>
   (\<exists>out. main_local [ex_c, ex_a, ex_d, ex_b] = Inr (map Some out) \<and> length out \<le> 4 \<and>
          set (map post_id out) \<subseteq> {''a'', ''b'', ''c'', ''d''})"
proof -
  have len: "length [ex_c, ex_a, ex_d, ex_b] = 4" by simp
  have ids: "set (map post_id [ex_c, ex_a, ex_d, ex_b]) = {''a'', ''b'', ''c'', ''d''}"
    by (auto simp: ex_defs)
  show ?thesis
    using output_no_larger_ids_from_input[of "[ex_c, ex_a, ex_d, ex_b]"]
    unfolding len ids .
qed

end
